theory Spec2Isabelle
  imports Main "HOL-Library.Word" "HOL-Library.Multiset"
begin

unbundle bit_operations_syntax

section \<open>Galois/util/GAlgs.h: safe\_advance\<close>

text \<open>
  Iterators over a random-access sequence are positions (\<open>int\<close>), \<open>std::distance(b,e)\<close>
  is \<open>e - b\<close> and \<open>b + n\<close> is addition. The two overloads of
  \<open>safe_advance_dispatch\<close> are selected by the iterator category tag.
\<close>

datatype iterator_category = random_access_iterator_tag | input_iterator_tag

text \<open>
  \<^verbatim>\<open>if (std::distance(b,e) < n) return b + n; else return e;\<close>
\<close>

definition safe_advance_dispatch_random_access :: "int \<Rightarrow> int \<Rightarrow> int \<Rightarrow> int" where
  "safe_advance_dispatch_random_access b e n = (if e - b < n then b + n else e)"

text \<open>
  \<^verbatim>\<open>while (b != e && n--) ++b; return b;\<close> for a non-negative count \<open>n\<close>.
\<close>

fun safe_advance_dispatch_input :: "int \<Rightarrow> int \<Rightarrow> nat \<Rightarrow> int" where
  "safe_advance_dispatch_input b e 0 = b"
| "safe_advance_dispatch_input b e (Suc n) =
     (if b \<noteq> e then safe_advance_dispatch_input (b + 1) e n else b)"

definition safe_advance :: "iterator_category \<Rightarrow> int \<Rightarrow> int \<Rightarrow> nat \<Rightarrow> int" where
  "safe_advance category b e n =
     (case category of
        random_access_iterator_tag \<Rightarrow> safe_advance_dispatch_random_access b e (int n)
      | input_iterator_tag \<Rightarrow> safe_advance_dispatch_input b e n)"

section \<open>Galois/Runtime/ll/StaticInstance.h\<close>

text \<open>
  Pointers are addresses (\<open>nat\<close>), the null pointer is \<open>0\<close>. The free store is the
  list of addresses of the objects constructed so far; \<open>new T()\<close> yields an address
  that is not null and not yet in use, and records it.
\<close>

type_synonym addr = nat
type_synonym free_store = "addr list"

definition new_T :: "free_store \<Rightarrow> addr \<times> free_store" where
  "new_T h = (let p = Suc (fold max h 0) in (p, p # h))"

record StaticInstance =
  V :: addr
  lock_word :: "32 word"

text \<open>
  \<open>lock()\<close> spins while \<open>_lock\<close> is not zero, then does a fetch-and-or with 1 and
  repeats while the old value had bit 0 set. Executed by one thread with nobody else
  to release the lock, a spin on a held lock never returns: that is the value \<open>None\<close>.
\<close>

partial_function (option) lock :: "StaticInstance \<Rightarrow> StaticInstance option" where
  "lock s =
     (if lock_word s \<noteq> 0 then lock s
      else (let oldval = lock_word s;
                s' = s\<lparr>lock_word := lock_word s OR 1\<rparr>
            in if oldval AND 1 \<noteq> 0 then lock s' else Some s'))"

definition unlock :: "StaticInstance \<Rightarrow> StaticInstance" where
  "unlock s = s\<lparr>lock_word := 0\<rparr>"

text \<open>
  \<open>get()\<close>: the fast path returns \<open>V\<close> when it is set; otherwise the lock is taken,
  \<open>V\<close> is read again and, when still null, set to a newly constructed object.
  The result is the returned pointer with the updated instance and free store.
\<close>

definition get :: "StaticInstance \<times> free_store \<Rightarrow> (addr \<times> StaticInstance \<times> free_store) option" where
  "get sh =
     (case sh of (s, h) \<Rightarrow>
        if V s \<noteq> 0 then Some (V s, s, h)
        else (case lock s of
                None \<Rightarrow> None
              | Some s1 \<Rightarrow>
                  if V s1 = 0
                  then (case new_T h of (p, h') \<Rightarrow> Some (p, unlock (s1\<lparr>V := p\<rparr>), h'))
                  else Some (V s1, unlock s1, h)))"

text \<open>\<open>k\<close> calls of \<open>get()\<close> one after the other; the pointers they return, in order.\<close>

fun get_calls :: "nat \<Rightarrow> StaticInstance \<times> free_store \<Rightarrow> (addr list \<times> StaticInstance \<times> free_store) option" where
  "get_calls 0 sh = Some ([], sh)"
| "get_calls (Suc k) sh =
     (case get sh of
        None \<Rightarrow> None
      | Some (p, sh') \<Rightarrow>
          (case get_calls k sh' of
             None \<Rightarrow> None
           | Some (ps, sh'') \<Rightarrow> Some (p # ps, sh'')))"

text \<open>A static object is zero-initialised before any call.\<close>

definition StaticInstance_zero :: StaticInstance where
  "StaticInstance_zero = \<lparr>V = 0, lock_word = 0\<rparr>"

section \<open>Galois/Runtime/Termination.h\<close>

record TokenHolder =
  tokenIsBlack :: bool
  hasToken :: bool
  processIsBlack :: bool

text \<open>\<open>TokenHolder() : tokenIsBlack(false), hasToken(false), processIsBlack(true)\<close>\<close>

definition TokenHolder_ctor :: TokenHolder where
  "TokenHolder_ctor = \<lparr>tokenIsBlack = False, hasToken = False, processIsBlack = True\<rparr>"

definition TokenHolder_workHappened :: "TokenHolder \<Rightarrow> TokenHolder" where
  "TokenHolder_workHappened t = t\<lparr>processIsBlack := True\<rparr>"

text \<open>
  \<open>PerThreadStorage<TokenHolder> data\<close> holds one \<open>TokenHolder\<close> per worker; it is the
  list indexed by the worker's id, and \<open>data.getLocal()\<close> on worker \<open>tid\<close> is entry
  \<open>tid\<close>.
\<close>

record TerminationDetection =
  data :: "TokenHolder list"
  globalTerm :: bool
  lastWasWhite :: bool

text \<open>
  Modelled from the spec: the body of the constructor
  \<open>TerminationDetection::TerminationDetection()\<close> and the class \<open>PerThreadStorage\<close> are
  not among the sources (only the declarations are). By the class definition the member
  \<open>data\<close> is built from the default constructor \<open>TokenHolder()\<close> for each of the
  \<open>nworkers\<close> workers; what the body stores in \<open>globalTerm\<close> and \<open>lastWasWhite\<close> is
  taken as the parameters \<open>gt\<close> and \<open>lw\<close>. The token itself is handed out by
  \<open>initializeThread\<close>, as the spec has worker 0 initialised holding a black token.
\<close>

definition TerminationDetection_ctor :: "nat \<Rightarrow> bool \<Rightarrow> bool \<Rightarrow> TerminationDetection" where
  "TerminationDetection_ctor nworkers gt lw =
     \<lparr>data = replicate nworkers TokenHolder_ctor, globalTerm = gt, lastWasWhite = lw\<rparr>"

text \<open>
  \<^verbatim>\<open>if (LL::getTID() == 0) { data.getLocal()->hasToken = true;
                             data.getLocal()->tokenIsBlack = true; }\<close>
  run by the worker with id \<open>tid\<close>.
\<close>

definition initializeThread :: "nat \<Rightarrow> TerminationDetection \<Rightarrow> TerminationDetection" where
  "initializeThread tid td =
     (if tid = 0
      then td\<lparr>data := (data td)[tid := (data td ! tid)\<lparr>hasToken := True, tokenIsBlack := True\<rparr>]\<rparr>
      else td)"

definition TerminationDetection_workHappened :: "nat \<Rightarrow> TerminationDetection \<Rightarrow> TerminationDetection" where
  "TerminationDetection_workHappened tid td =
     td\<lparr>data := (data td)[tid := TokenHolder_workHappened (data td ! tid)]\<rparr>"

text \<open>Every worker of the list \<open>tids\<close> runs \<open>initializeThread\<close>, in the order of the list.\<close>

definition initializeThreads :: "nat list \<Rightarrow> TerminationDetection \<Rightarrow> TerminationDetection" where
  "initializeThreads tids td = fold initializeThread tids td"



section \<open>src/FileGraph.cpp\<close>

text \<open>
  A region of memory (a mapped file, or the buffer handed to \<open>structureFromMem\<close>) is the
  list of its bytes, and a pointer into it is the byte offset from its start.
  \<open>le64toh(*p)\<close> and \<open>le32toh(*p)\<close> read the bytes at \<open>p\<close> as a little-endian number,
  whatever the byte order of the host. An access that leaves the region is undefined
  behaviour in the source; the model stops there with \<open>MemoryFault\<close>. A failed
  \<open>assert\<close> aborts (\<open>AssertionFailure\<close>), and \<open>perror(...); abort()\<close> after a failed
  system call is \<open>IOAbort\<close>.
\<close>

type_synonym byte = "8 word"

datatype failure = AssertionFailure | MemoryFault | IOAbort

definition le_decode :: "byte list \<Rightarrow> nat" where
  "le_decode bs = foldr (\<lambda>b n. unat b + 256 * n) bs 0"

definition load64 :: "byte list \<Rightarrow> nat \<Rightarrow> failure + 64 word" where
  "load64 m a = (if a + 8 \<le> length m then Inr (word_of_nat (le_decode (take 8 (drop a m))))
                 else Inl MemoryFault)"

definition load32 :: "byte list \<Rightarrow> nat \<Rightarrow> failure + 32 word" where
  "load32 m a = (if a + 4 \<le> length m then Inr (word_of_nat (le_decode (take 4 (drop a m))))
                 else Inl MemoryFault)"

text \<open>
  The members of \<open>FileGraph\<close>. \<open>masterMapping\<close> is the region the object points to;
  \<open>outIdx\<close>, \<open>outs\<close> and \<open>edgeData\<close> point into it.
\<close>

record FileGraph =
  masterMapping :: "byte list"
  masterLength :: nat
  sizeEdgeTy :: "64 word"
  masterFD :: int
  outIdx :: nat
  outs :: nat
  edgeData :: nat
  numEdges :: "64 word"
  numNodes :: "64 word"

definition FileGraph_ctor :: FileGraph where
  "FileGraph_ctor = \<lparr>masterMapping = [], masterLength = 0, sizeEdgeTy = 0, masterFD = 0,
     outIdx = 0, outs = 0, edgeData = 0, numEdges = 0, numNodes = 0\<rparr>"

text \<open>
  \<open>parse(m)\<close>: four 64-bit header words (the version is asserted to be 1), then the
  pointers to the offset table, to the destination table behind it, and to the edge data
  behind that, after 4 bytes of padding when the number of edges is odd.
\<close>

definition parse :: "byte list \<Rightarrow> FileGraph \<Rightarrow> failure + FileGraph" where
  "parse m g =
     (case load64 m 0 of Inl f \<Rightarrow> Inl f | Inr version \<Rightarrow>
      if version \<noteq> 1 then Inl AssertionFailure else
      (case load64 m 8 of Inl f \<Rightarrow> Inl f | Inr sz \<Rightarrow>
      (case load64 m 16 of Inl f \<Rightarrow> Inl f | Inr nn \<Rightarrow>
      (case load64 m 24 of Inl f \<Rightarrow> Inl f | Inr ne \<Rightarrow>
       (let fptr = 32;
            fptr' = fptr + 8 * unat nn;
            fptr32 = fptr' + 4 * unat ne;
            fptr32' = (if unat ne mod 2 \<noteq> 0 then fptr32 + 4 else fptr32)
        in Inr (g\<lparr>sizeEdgeTy := sz, numNodes := nn, numEdges := ne,
                   outIdx := fptr, outs := fptr', edgeData := fptr32'\<rparr>))))))"

text \<open>
  \<open>structureFromMem(mem, len, clone)\<close>. With \<open>clone\<close> an anonymous mapping of \<open>len\<close>
  bytes is made (\<open>mmap\<close> refuses the length 0) and filled by \<open>memcpy\<close>; otherwise \<open>mem\<close>
  itself is parsed.
\<close>

definition structureFromMem :: "FileGraph \<Rightarrow> byte list \<Rightarrow> nat \<Rightarrow> bool \<Rightarrow> failure + FileGraph" where
  "structureFromMem g mem len clone =
     (let g1 = g\<lparr>masterLength := len\<rparr> in
      if clone then
        (if len = 0 then Inl IOAbort
         else if length mem < len then Inl MemoryFault
         else (let m = take len mem in
               case parse m g1 of Inl f \<Rightarrow> Inl f
               | Inr g2 \<Rightarrow> Inr (g2\<lparr>masterMapping := m\<rparr>)))
      else
        (case parse mem g1 of Inl f \<Rightarrow> Inl f
         | Inr g2 \<Rightarrow> Inr (g2\<lparr>masterMapping := mem\<rparr>)))"

text \<open>
  The file system is a map from file names to contents. \<open>structureFromFile\<close> opens the
  file (descriptor 3 stands for the one \<open>open\<close> returns), takes its size from \<open>fstat\<close>
  and maps it; a missing file and an empty one (\<open>mmap\<close> of length 0) end in
  \<open>perror; abort\<close>.
\<close>

type_synonym filesystem = "string \<rightharpoonup> byte list"

definition structureFromFile :: "FileGraph \<Rightarrow> filesystem \<Rightarrow> string \<Rightarrow> failure + FileGraph" where
  "structureFromFile g fs filename =
     (case fs filename of
        None \<Rightarrow> Inl IOAbort
      | Some bytes \<Rightarrow>
          (let g1 = g\<lparr>masterFD := 3, masterLength := length bytes\<rparr> in
           if length bytes = 0 then Inl IOAbort
           else (case parse bytes g1 of Inl f \<Rightarrow> Inl f
                 | Inr g2 \<Rightarrow> Inr (g2\<lparr>masterMapping := bytes\<rparr>))))"

text \<open>
  The two system calls of \<open>structureToFile\<close>. What the kernel decides is a parameter of
  each: \<open>fd\<close> is what \<open>open(file, O_WRONLY | O_CREAT | O_TRUNC, mode)\<close> returns, a
  descriptor or -1, and \<open>stored\<close> is what a \<open>write\<close> on a good descriptor returns, -1 or
  the number of bytes the kernel has stored, which may be less than the count \<open>cnt\<close> asked
  for (a short write).

  \<open>sys_open\<close>: an \<open>open\<close> that fails leaves the file system as it is; one that succeeds
  has created the file, or truncated it to length 0.

  \<open>sys_write\<close>: a \<open>write\<close> on the descriptor -1 returns -1, as does one the kernel
  refuses and one whose buffer does not hold \<open>cnt\<close> bytes; otherwise the first \<open>n\<close>
  bytes of the buffer are stored at the start of the file just truncated and \<open>n\<close> is
  returned.
\<close>

definition sys_open :: "filesystem \<Rightarrow> string \<Rightarrow> int \<Rightarrow> int \<times> filesystem" where
  "sys_open fs file fd = (if fd < 0 then (- 1, fs) else (fd, fs(file \<mapsto> [])))"

definition sys_write :: "filesystem \<Rightarrow> string \<Rightarrow> int \<Rightarrow> byte list \<Rightarrow> nat \<Rightarrow> int \<Rightarrow> int \<times> filesystem" where
  "sys_write fs file fd buf cnt stored =
     (if fd < 0 \<or> stored < 0 \<or> length buf < cnt then (- 1, fs)
      else (let n = min (nat stored) cnt in (int n, fs(file \<mapsto> take n buf))))"

text \<open>
  \<open>structureToFile(file)\<close>: \<open>fd = open(...)\<close> is not tested; \<open>retval = write(fd,
  masterMapping, masterLength)\<close>; \<open>if (retval == -1) { perror; abort(); }\<close>;
  \<open>close(fd)\<close>. So a failed \<open>open\<close> ends in the abort through the \<open>write\<close> on -1, and
  a short write is taken for a success: the function returns with a file that holds
  only the bytes stored.
\<close>

definition structureToFile :: "FileGraph \<Rightarrow> filesystem \<Rightarrow> string \<Rightarrow> int \<Rightarrow> int \<Rightarrow> failure + filesystem" where
  "structureToFile g fs file fd_open stored =
     (case sys_open fs file fd_open of (fd, fs1) \<Rightarrow>
        (case sys_write fs1 file fd (masterMapping g) (masterLength g) stored of (retval, fs2) \<Rightarrow>
           if retval = - 1 then Inl IOAbort else Inr fs2))"

text \<open>
  The accessors. A \<open>GraphNode\<close> is a \<open>uint32_t\<close>, an \<open>edge_iterator\<close> counts in
  \<open>uint64_t\<close>; \<open>raw_neighbor_begin\<close> and \<open>raw_neighbor_end\<close> return \<open>&outs[i]\<close>, given
  here by the index \<open>i\<close>.
\<close>

definition raw_neighbor_begin :: "FileGraph \<Rightarrow> 32 word \<Rightarrow> failure + 64 word" where
  "raw_neighbor_begin g N =
     (if N = 0 then Inr 0 else load64 (masterMapping g) (outIdx g + 8 * unat (N - 1)))"

definition raw_neighbor_end :: "FileGraph \<Rightarrow> 32 word \<Rightarrow> failure + 64 word" where
  "raw_neighbor_end g N = load64 (masterMapping g) (outIdx g + 8 * unat N)"

text \<open>
  The loop of \<open>getEdgeIdx\<close>: \<open>for (ii = begin; ii != ee; ++ii) if (le32toh(*ii) == dst)
  return distance(outs, ii); return ~0\<close>. It ends at \<open>ee\<close>, at a match, or where it runs
  out of the region.
\<close>

function getEdgeIdx_loop :: "byte list \<Rightarrow> nat \<Rightarrow> 32 word \<Rightarrow> nat \<Rightarrow> nat \<Rightarrow> failure + 64 word" where
  "getEdgeIdx_loop m os dst ii ee =
     (if ii = ee then Inr (NOT 0)
      else (case load32 m (os + 4 * ii) of
              Inl f \<Rightarrow> Inl f
            | Inr w \<Rightarrow> if w = dst then Inr (word_of_nat ii)
                       else getEdgeIdx_loop m os dst (ii + 1) ee))"
  by pat_completeness auto
termination
  by (relation "measure (\<lambda>(m, os, dst, ii, ee). length m - (os + 4 * ii))")
     (auto simp: load32_def split: if_splits)

definition getEdgeIdx :: "FileGraph \<Rightarrow> 32 word \<Rightarrow> 32 word \<Rightarrow> failure + 64 word" where
  "getEdgeIdx g src dst =
     (case raw_neighbor_begin g src of Inl f \<Rightarrow> Inl f | Inr b \<Rightarrow>
      (case raw_neighbor_end g src of Inl f \<Rightarrow> Inl f | Inr e \<Rightarrow>
         getEdgeIdx_loop (masterMapping g) (outs g) dst (unat b) (unat e)))"

definition hasNeighbor :: "FileGraph \<Rightarrow> 32 word \<Rightarrow> 32 word \<Rightarrow> failure + bool" where
  "hasNeighbor g N1 N2 =
     (case getEdgeIdx g N1 N2 of Inl f \<Rightarrow> Inl f | Inr i \<Rightarrow> Inr (i \<noteq> NOT 0))"

definition edge_begin :: "FileGraph \<Rightarrow> 32 word \<Rightarrow> failure + 64 word" where
  "edge_begin g N =
     (if N = 0 then Inr 0 else load64 (masterMapping g) (outIdx g + 8 * unat (N - 1)))"

definition edge_end :: "FileGraph \<Rightarrow> 32 word \<Rightarrow> failure + 64 word" where
  "edge_end g N = load64 (masterMapping g) (outIdx g + 8 * unat N)"

definition getEdgeDst :: "FileGraph \<Rightarrow> 64 word \<Rightarrow> failure + 32 word" where
  "getEdgeDst g it = load32 (masterMapping g) (outs g + 4 * unat it)"

definition neighborsSize :: "FileGraph \<Rightarrow> 32 word \<Rightarrow> failure + 64 word" where
  "neighborsSize g N =
     (case raw_neighbor_begin g N of Inl f \<Rightarrow> Inl f | Inr b \<Rightarrow>
      (case raw_neighbor_end g N of Inl f \<Rightarrow> Inl f | Inr e \<Rightarrow> Inr (e - b)))"

text \<open>\<open>size()\<close> and \<open>sizeEdges()\<close> return \<open>unsigned int\<close>.\<close>

definition size_FileGraph :: "FileGraph \<Rightarrow> 32 word" where
  "size_FileGraph g = ucast (numNodes g)"

definition sizeEdges :: "FileGraph \<Rightarrow> 32 word" where
  "sizeEdges g = ucast (numEdges g)"

definition containsNode :: "FileGraph \<Rightarrow> 32 word \<Rightarrow> bool" where
  "containsNode g n = (unat n < unat (numNodes g))"

text \<open>
  The destinations of a node's edges as a caller reads them:
  \<open>for (it = edge_begin(N); it != edge_end(N); ++it) getEdgeDst(it)\<close>, the edge taken
  at the index the iterator stands at.
\<close>

function edge_dsts_loop :: "byte list \<Rightarrow> nat \<Rightarrow> nat \<Rightarrow> nat \<Rightarrow> failure + 32 word list" where
  "edge_dsts_loop m os ii ee =
     (if ii = ee then Inr []
      else (case load32 m (os + 4 * ii) of
              Inl f \<Rightarrow> Inl f
            | Inr d \<Rightarrow> (case edge_dsts_loop m os (ii + 1) ee of
                          Inl f \<Rightarrow> Inl f
                        | Inr ds \<Rightarrow> Inr (d # ds))))"
  by pat_completeness auto
termination
  by (relation "measure (\<lambda>(m, os, ii, ee). length m - (os + 4 * ii))")
     (auto simp: load32_def split: if_splits)

definition edge_dsts :: "FileGraph \<Rightarrow> 32 word \<Rightarrow> failure + 32 word list" where
  "edge_dsts g N =
     (case edge_begin g N of Inl f \<Rightarrow> Inl f | Inr b \<Rightarrow>
      (case edge_end g N of Inl f \<Rightarrow> Inl f | Inr e \<Rightarrow>
         edge_dsts_loop (masterMapping g) (outs g) (unat b) (unat e)))"


subsection \<open>The format, as the specification words it\<close>

text \<open>
  The offset table (one 64-bit value per node) and the destination table (one 32-bit
  node index per edge) of a graph, and the version field of an image.
\<close>

definition offsets :: "FileGraph \<Rightarrow> 64 word list" where
  "offsets g = map (\<lambda>i. word_of_nat (le_decode (take 8 (drop (outIdx g + 8 * i) (masterMapping g)))))
                   [0..<unat (numNodes g)]"

definition dests :: "FileGraph \<Rightarrow> 32 word list" where
  "dests g = map (\<lambda>i. word_of_nat (le_decode (take 4 (drop (outs g + 4 * i) (masterMapping g)))))
                 [0..<unat (numEdges g)]"


text \<open>
  A valid graph: its members are what \<open>parse\<close> reads from its own image; the image with
  its payload table lies within \<open>masterLength\<close> bytes, which are all there; the offsets
  do not decrease and the last one is the number of edges; every destination is a node.
\<close>

definition valid_FileGraph :: "FileGraph \<Rightarrow> bool" where
  "valid_FileGraph g \<longleftrightarrow>
     parse (masterMapping g) g = Inr g \<and>
     masterLength g \<le> length (masterMapping g) \<and>
     edgeData g + unat (numEdges g) * unat (sizeEdgeTy g) \<le> masterLength g \<and>
     sorted (offsets g) \<and>
     (if offsets g = [] then numEdges g = 0 else last (offsets g) = numEdges g) \<and>
     list_all (\<lambda>d. unat d < unat (numNodes g)) (dests g)"


text \<open>
  The image of the graph with the 4 nodes 0..3 and the edges (0,1), (0,2), (1,2), (2,3):
  version 1, no edge payload, 4 nodes, 4 edges, the offsets 2, 3, 4, 4 and the
  destinations 1, 2, 2, 3; and the graph loaded from a file with these bytes.
\<close>

definition example_image :: "byte list" where
  "example_image =
     [1,0,0,0,0,0,0,0,  0,0,0,0,0,0,0,0,  4,0,0,0,0,0,0,0,  4,0,0,0,0,0,0,0,
      2,0,0,0,0,0,0,0,  3,0,0,0,0,0,0,0,  4,0,0,0,0,0,0,0,  4,0,0,0,0,0,0,0,
      1,0,0,0,  2,0,0,0,  2,0,0,0,  3,0,0,0]"

definition example_graph :: FileGraph where
  "example_graph = \<lparr>masterMapping = example_image, masterLength = 80, sizeEdgeTy = 0,
     masterFD = 3, outIdx = 32, outs = 64, edgeData = 80, numEdges = 4, numNodes = 4\<rparr>"




section \<open>Galois/Runtime/InsBag.h\<close>

text \<open>
  The sizes the layout of a segment depends on: \<open>sizeof(T)\<close> of the element type,
  \<open>sizeof(header)\<close> and \<open>MM::pageSize\<close>. They are constants of a build (the element
  type is the template parameter, \<open>Mem.h\<close> is not among the sources), hence parameters
  here.
\<close>

record layout =
  sizeof_T :: nat
  sizeof_header :: nat
  pageSize :: nat

text \<open>
  A segment is one page: the \<open>header\<close> at its start and the elements behind it. With
  \<open>a = (T*)m\<close> the base of the page, a cursor \<open>&a[i]\<close> is the slot index \<open>i\<close>;
  \<open>slots\<close> holds the objects constructed in the page, by slot. The member \<open>next\<close> is
  the rest of the list the header is the first element of (the null pointer is the empty
  list), and \<open>page\<close> is the address of the page, which is also the address of the
  header.
\<close>

record 'a header =
  page :: nat
  dbegin :: nat
  dend :: nat
  dlast :: nat
  slots :: "nat \<rightharpoonup> 'a"

text \<open>Slot \<open>i\<close> lies in the page when all its bytes do: \<open>i < pageSize / sizeof(T)\<close>.\<close>

definition in_page :: "layout \<Rightarrow> nat \<Rightarrow> bool" where
  "in_page L i = (i < pageSize L div sizeof_T L)"

text \<open>
  Modelled from the spec: \<open>MM::pageAlloc\<close> and \<open>MM::pageFree\<close> are not among the
  sources. The bulk allocator hands out page-sized arenas and takes them back: the
  allocator's state is the list of the pages handed out and not yet returned,
  \<open>pageAlloc\<close> yields a page that is not null and not in that list, \<open>pageFree\<close>
  takes the page off it.
\<close>

definition pageAlloc :: "nat list \<Rightarrow> nat \<times> nat list" where
  "pageAlloc ps = (let pg = Suc (fold max ps 0) in (pg, pg # ps))"

definition pageFree :: "nat \<Rightarrow> nat list \<Rightarrow> nat list" where
  "pageFree pg ps = remove1 pg ps"

text \<open>
  The bag: \<open>PerCPU<header*> heads\<close> is the list of the workers' segment lists, by
  worker id (\<open>heads.get()\<close> on worker \<open>tid\<close> is entry \<open>tid\<close>, \<open>heads.size()\<close> the
  length). With it go the allocator's pages and the log of the elements whose destructor
  has run.
\<close>

record 'a insert_bag =
  heads :: "'a header list list"
  pages :: "nat list"
  destroyed :: "'a list"

definition insert_bag_ctor :: "nat \<Rightarrow> nat list \<Rightarrow> 'a insert_bag" where
  "insert_bag_ctor nworkers ps = \<lparr>heads = replicate nworkers [], pages = ps, destroyed = []\<rparr>"

text \<open>
  \<open>newHeader()\<close>: \<open>offset\<close> is 1, plus \<open>sizeof(header)/sizeof(T)\<close> when the element is
  smaller than the header; \<open>dbegin = dend = &a[offset]\<close>, \<open>dlast = &a[pageSize/sizeof(T)]\<close>.
\<close>

definition newHeader :: "layout \<Rightarrow> nat \<Rightarrow> 'a header" where
  "newHeader L m =
     (let offset = (if sizeof_T L < sizeof_header L then 1 + sizeof_header L div sizeof_T L else 1)
      in \<lparr>page = m, dbegin = offset, dend = offset, dlast = pageSize L div sizeof_T L,
          slots = Map.empty\<rparr>)"

text \<open>
  \<open>push(val)\<close> on worker \<open>tid\<close>: a new header is linked in front when the worker has
  no segment or its first one is full; then \<open>val\<close> is constructed at \<open>dend\<close> of the first
  segment and \<open>dend\<close> advances. Constructing outside the page is undefined behaviour in
  the source and \<open>MemoryFault\<close> here, as is a worker id outside \<open>heads\<close>.
\<close>

definition push :: "layout \<Rightarrow> nat \<Rightarrow> 'a \<Rightarrow> 'a insert_bag \<Rightarrow> failure + 'a insert_bag" where
  "push L tid val s =
     (if length (heads s) \<le> tid then Inl MemoryFault
      else
        (let H = heads s ! tid;
             (H', ps) = (if H = [] \<or> dend (hd H) = dlast (hd H)
                         then (case pageAlloc (pages s) of (m, ps') \<Rightarrow> (newHeader L m # H, ps'))
                         else (H, pages s));
             h = hd H'
         in if in_page L (dend h)
            then Inr (s\<lparr>heads := (heads s)[tid := h\<lparr>slots := (slots h)(dend h \<mapsto> val),
                                                       dend := dend h + 1\<rparr> # tl H'],
                        pages := ps\<rparr>)
            else Inl MemoryFault))"

text \<open>A sequence of pushes, each by the worker it names.\<close>

fun pushes :: "layout \<Rightarrow> (nat \<times> 'a) list \<Rightarrow> 'a insert_bag \<Rightarrow> failure + 'a insert_bag" where
  "pushes L [] s = Inr s"
| "pushes L ((tid, val) # ops) s =
     (case push L tid val s of Inl f \<Rightarrow> Inl f | Inr s' \<Rightarrow> pushes L ops s')"

text \<open>
  \<open>for (T* ii = h->dbegin, *ee = h->dend; ii != ee; ++ii) ii->~T();\<close> yields the
  elements destroyed. Destroying what was not constructed, or outside the page, is
  \<open>MemoryFault\<close>.
\<close>

function destroy_range :: "layout \<Rightarrow> (nat \<rightharpoonup> 'a) \<Rightarrow> nat \<Rightarrow> nat \<Rightarrow> failure + 'a list" where
  "destroy_range L sl ii ee =
     (if ii = ee then Inr []
      else if \<not> in_page L ii then Inl MemoryFault
      else (case sl ii of
              None \<Rightarrow> Inl MemoryFault
            | Some x \<Rightarrow> (case destroy_range L sl (ii + 1) ee of
                           Inl f \<Rightarrow> Inl f
                         | Inr xs \<Rightarrow> Inr (x # xs))))"
  by pat_completeness auto
termination
  by (relation "measure (\<lambda>(L, sl, ii, ee). pageSize L div sizeof_T L - ii)")
     (auto simp: in_page_def)

text \<open>
  The body of the loop of \<open>destruct()\<close> for worker \<open>x\<close>:
  \<^verbatim>\<open>header* h = heads.get(x);
  if (h) { heads.get(x) = h->next; <destroy the elements of h>; MM::pageFree(h); }\<close>
\<close>

definition destruct_worker :: "layout \<Rightarrow> nat \<Rightarrow> 'a insert_bag \<Rightarrow> failure + 'a insert_bag" where
  "destruct_worker L x s =
     (case heads s ! x of
        [] \<Rightarrow> Inr s
      | h # rest \<Rightarrow>
          (case destroy_range L (slots h) (dbegin h) (dend h) of
             Inl f \<Rightarrow> Inl f
           | Inr xs \<Rightarrow> Inr (s\<lparr>heads := (heads s)[x := rest],
                                destroyed := destroyed s @ xs,
                                pages := pageFree (page h) (pages s)\<rparr>)))"

fun destruct_loop :: "layout \<Rightarrow> nat list \<Rightarrow> 'a insert_bag \<Rightarrow> failure + 'a insert_bag" where
  "destruct_loop L [] s = Inr s"
| "destruct_loop L (x # xs) s =
     (case destruct_worker L x s of Inl f \<Rightarrow> Inl f | Inr s' \<Rightarrow> destruct_loop L xs s')"

definition destruct :: "layout \<Rightarrow> 'a insert_bag \<Rightarrow> failure + 'a insert_bag" where
  "destruct L s = destruct_loop L [0..<length (heads s)] s"

text \<open>\<open>clear()\<close>: \<open>destruct()\<close>, then every head is set to null.\<close>

definition clear :: "layout \<Rightarrow> 'a insert_bag \<Rightarrow> failure + 'a insert_bag" where
  "clear L s =
     (case destruct L s of
        Inl f \<Rightarrow> Inl f
      | Inr s' \<Rightarrow> Inr (s'\<lparr>heads := map (\<lambda>_. []) (heads s')\<rparr>))"

text \<open>
  The iterator: the worker \<open>thr\<close>, the header \<open>p\<close> (the list that starts with it) and
  the slot \<open>v\<close> (\<open>None\<close> is the null pointer); \<open>hd\<close>, the pointer to \<open>heads\<close>, is the
  argument \<open>hs\<close> of the functions. The functions return the value of the C++ function
  with the updated iterator.
\<close>

record 'a iterator =
  it_thr :: nat
  it_p :: "'a header list"
  it_v :: "nat option"

definition init_thread :: "'a header list list \<Rightarrow> 'a iterator \<Rightarrow> bool \<times> 'a iterator" where
  "init_thread hs it =
     (let p = (if it_thr it < length hs then hs ! it_thr it else []);
          v = (if p \<noteq> [] then Some (dbegin (hd p)) else None)
      in (p \<noteq> [], it\<lparr>it_p := p, it_v := v\<rparr>))"

definition advance_local :: "'a iterator \<Rightarrow> bool \<times> 'a iterator" where
  "advance_local it =
     (if it_p it \<noteq> []
      then (let v = map_option Suc (it_v it)
            in (v \<noteq> Some (dend (hd (it_p it))), it\<lparr>it_v := v\<rparr>))
      else (False, it))"

definition advance_chunk :: "'a iterator \<Rightarrow> bool \<times> 'a iterator" where
  "advance_chunk it =
     (if it_p it \<noteq> []
      then (let p = tl (it_p it);
                v = (if p \<noteq> [] then Some (dbegin (hd p)) else None)
            in (p \<noteq> [], it\<lparr>it_p := p, it_v := v\<rparr>))
      else (False, it))"

function advance_thread :: "'a header list list \<Rightarrow> 'a iterator \<Rightarrow> 'a iterator" where
  "advance_thread hs it =
     (if it_thr it < length hs
      then (if fst (init_thread hs (it\<lparr>it_thr := it_thr it + 1\<rparr>))
            then snd (init_thread hs (it\<lparr>it_thr := it_thr it + 1\<rparr>))
            else advance_thread hs (snd (init_thread hs (it\<lparr>it_thr := it_thr it + 1\<rparr>))))
      else it)"
  by pat_completeness auto
termination
  by (relation "measure (\<lambda>(hs, it). length hs - it_thr it)")
     (auto simp: init_thread_def Let_def)

declare advance_thread.simps [simp del]

definition advance :: "'a header list list \<Rightarrow> 'a iterator \<Rightarrow> 'a iterator" where
  "advance hs it =
     (case advance_local it of
        (True, it1) \<Rightarrow> it1
      | (False, it1) \<Rightarrow>
          (case advance_chunk it1 of
             (True, it2) \<Rightarrow> it2
           | (False, it2) \<Rightarrow> advance_thread hs it2))"

definition iterator_ctor :: "'a header list list \<Rightarrow> nat \<Rightarrow> 'a iterator" where
  "iterator_ctor hs t =
     (case init_thread hs \<lparr>it_thr = t, it_p = [], it_v = None\<rparr> of
        (True, it) \<Rightarrow> it
      | (False, it) \<Rightarrow> advance_thread hs it)"

text \<open>
  \<open>operator==\<close> compares \<open>thr\<close> and the pointers \<open>p\<close> and \<open>v\<close>; the pointer to a
  header is the address of its page.
\<close>

definition header_ptr :: "'a header list \<Rightarrow> nat" where
  "header_ptr p = (case p of [] \<Rightarrow> 0 | h # _ \<Rightarrow> page h)"

definition iterator_eq :: "'a iterator \<Rightarrow> 'a iterator \<Rightarrow> bool" where
  "iterator_eq a b \<longleftrightarrow>
     it_thr a = it_thr b \<and> header_ptr (it_p a) = header_ptr (it_p b) \<and> it_v a = it_v b"

text \<open>\<open>operator*\<close> reads the object at \<open>v\<close>; there must be one, in the page.\<close>

definition deref :: "layout \<Rightarrow> 'a iterator \<Rightarrow> failure + 'a" where
  "deref L it =
     (case (it_p it, it_v it) of
        (h # _, Some i) \<Rightarrow>
          (if in_page L i then (case slots h i of None \<Rightarrow> Inl MemoryFault | Some x \<Rightarrow> Inr x)
           else Inl MemoryFault)
      | _ \<Rightarrow> Inl MemoryFault)"

definition bag_begin :: "'a insert_bag \<Rightarrow> 'a iterator" where
  "bag_begin s = iterator_ctor (heads s) 0"

definition bag_end :: "'a insert_bag \<Rightarrow> 'a iterator" where
  "bag_end s = iterator_ctor (heads s) (length (heads s))"

text \<open>
  The loop of a reader, \<open>for (it = begin(); it != end(); ++it) out.push_back(*it)\<close>,
  from the position \<open>it\<close> on.
\<close>

partial_function (option) iterate :: "layout \<Rightarrow> 'a insert_bag \<Rightarrow> 'a iterator \<Rightarrow> 'a list \<Rightarrow> (failure + 'a list) option" where
  "iterate L s it acc =
     (if iterator_eq it (bag_end s) then Some (Inr acc)
      else (case deref L it of
              Inl f \<Rightarrow> Some (Inl f)
            | Inr x \<Rightarrow> iterate L s (advance (heads s) it) (acc @ [x])))"

definition bag_contents :: "layout \<Rightarrow> 'a insert_bag \<Rightarrow> (failure + 'a list) option" where
  "bag_contents L s = iterate L s (bag_begin s) []"


subsection \<open>Invariants of the segments\<close>

text \<open>
  \<open>layout_ok\<close>: behind the header, the page has room for at least one element.
  \<open>segment_ok\<close>: the cursors are in order and none is past the end of the page.
  \<open>linked_ok\<close>: moreover the segment holds at least one element, \<open>dlast\<close> is the end of
  the page's slots, and every slot from \<open>dbegin\<close> up to \<open>dend\<close> holds an object.
  \<open>bag_elems\<close> are the elements of the bag in the order of the workers and of their
  lists.
\<close>

definition first_slot :: "layout \<Rightarrow> nat" where
  "first_slot L = (if sizeof_T L < sizeof_header L then 1 + sizeof_header L div sizeof_T L else 1)"

definition layout_ok :: "layout \<Rightarrow> bool" where
  "layout_ok L \<longleftrightarrow> 0 < sizeof_T L \<and> first_slot L < pageSize L div sizeof_T L"

definition segment_ok :: "layout \<Rightarrow> 'a header \<Rightarrow> bool" where
  "segment_ok L h \<longleftrightarrow>
     dbegin h \<le> dend h \<and> dend h \<le> dlast h \<and> dlast h * sizeof_T L \<le> pageSize L"

definition seg_elems :: "'a header \<Rightarrow> 'a list" where
  "seg_elems h = map (\<lambda>i. the (slots h i)) [dbegin h..<dend h]"

definition linked_ok :: "layout \<Rightarrow> 'a header \<Rightarrow> bool" where
  "linked_ok L h \<longleftrightarrow>
     segment_ok L h \<and> dbegin h < dend h \<and> dlast h = pageSize L div sizeof_T L \<and>
     list_all (\<lambda>i. slots h i \<noteq> None) [dbegin h..<dend h]"

definition bag_inv :: "layout \<Rightarrow> 'a insert_bag \<Rightarrow> bool" where
  "bag_inv L s \<longleftrightarrow> list_all (list_all (linked_ok L)) (heads s)"

definition bag_elems :: "'a insert_bag \<Rightarrow> 'a list" where
  "bag_elems s = concat (map (\<lambda>H. concat (map seg_elems H)) (heads s))"

text \<open>
  Layouts for examples: 8-byte elements in 64-byte pages (slots 5, 6 and 7 of a page hold
  elements); an element of the size of a page; an element larger than a page. And the bag
  of one worker after the pushes of 10, 20, 30 and 40.
\<close>

definition small_layout :: layout where
  "small_layout = \<lparr>sizeof_T = 8, sizeof_header = 32, pageSize = 64\<rparr>"

definition page_sized_layout :: layout where
  "page_sized_layout = \<lparr>sizeof_T = 4096, sizeof_header = 32, pageSize = 4096\<rparr>"

definition oversized_layout :: layout where
  "oversized_layout = \<lparr>sizeof_T = 8192, sizeof_header = 32, pageSize = 4096\<rparr>"

definition two_segment_bag :: "nat insert_bag" where
  "two_segment_bag =
     \<lparr>heads = [[\<lparr>page = 2, dbegin = 5, dend = 6, dlast = 8, slots = [5 \<mapsto> 40]\<rparr>,
                \<lparr>page = 1, dbegin = 5, dend = 8, dlast = 8, slots = [5 \<mapsto> 10, 6 \<mapsto> 20, 7 \<mapsto> 30]\<rparr>]],
      pages = [2, 1], destroyed = []\<rparr>"


section \<open>Galois/Graphs/LCGraph.h\<close>

text \<open>
  The builders read the file graph through its iterators. \<open>graph.begin()\<close> to
  \<open>graph.end()\<close> counts the node ids from 0 up to \<open>numNodes\<close>;
  \<open>edgeid_begin()\<close> to \<open>edgeid_end()\<close> runs over \<open>outIdx[0 .. numNodes)\<close> and
  \<open>nodeid_begin()\<close> to \<open>nodeid_end()\<close> over \<open>outs[0 .. numEdges)\<close>, both decoding
  little-endian (\<open>load64_table\<close>, \<open>load32_table\<close>).

  Modelled from the spec: \<open>FileGraph.h\<close> is not among the sources, so
  \<open>neighbor_begin(N)\<close> and \<open>neighbor_end(N)\<close> are taken to be what the accessors of
  \<open>FileGraph.cpp\<close> make of them, the destinations in \<open>raw_neighbor_begin(N)\<close> up to
  \<open>raw_neighbor_end(N)\<close>, in order.
\<close>

definition neighbor_ids :: "FileGraph \<Rightarrow> 32 word \<Rightarrow> failure + 32 word list" where
  "neighbor_ids g N =
     (case raw_neighbor_begin g N of Inl f \<Rightarrow> Inl f | Inr b \<Rightarrow>
      (case raw_neighbor_end g N of Inl f \<Rightarrow> Inl f | Inr e \<Rightarrow>
         edge_dsts_loop (masterMapping g) (outs g) (unat b) (unat e)))"

fun load64_table :: "byte list \<Rightarrow> nat \<Rightarrow> nat \<Rightarrow> failure + 64 word list" where
  "load64_table m a 0 = Inr []"
| "load64_table m a (Suc n) =
     (case load64 m a of Inl f \<Rightarrow> Inl f | Inr w \<Rightarrow>
      (case load64_table m (a + 8) n of Inl f \<Rightarrow> Inl f | Inr ws \<Rightarrow> Inr (w # ws)))"

fun load32_table :: "byte list \<Rightarrow> nat \<Rightarrow> nat \<Rightarrow> failure + 32 word list" where
  "load32_table m a 0 = Inr []"
| "load32_table m a (Suc n) =
     (case load32 m a of Inl f \<Rightarrow> Inl f | Inr w \<Rightarrow>
      (case load32_table m (a + 4) n of Inl f \<Rightarrow> Inl f | Inr ws \<Rightarrow> Inr (w # ws)))"

text \<open>
  An array allocated with \<open>largeInterleavedAlloc(sizeof(T) * n)\<close> is a list of \<open>n\<close>
  elements; an access outside it is \<open>MemoryFault\<close>.
\<close>

definition array_get :: "'a list \<Rightarrow> nat \<Rightarrow> failure + 'a" where
  "array_get xs i = (if i < length xs then Inr (xs ! i) else Inl MemoryFault)"

text \<open>
  \<open>LC_CSR_Graph\<close>: \<open>EdgeIndData\<close> and \<open>EdgeDst\<close> are copies of the two tables. In
  \<open>structureFromFile\<close> the members \<open>numNodes\<close> and \<open>numEdges\<close> are set from
  \<open>graph.size()\<close> and \<open>graph.sizeEdges()\<close>, which return \<open>unsigned int\<close>; the arrays
  are allocated with these counts, and \<open>std::copy\<close> then copies all entries of the
  file's tables into them. A table longer than the array written to runs over its end.
  The node data and the edge data (\<open>NodeData\<close>, \<open>EdgeData\<close>) carry no topology and are
  left out.
\<close>

record LC_CSR_Graph =
  csr_EdgeIndData :: "64 word list"
  csr_EdgeDst :: "32 word list"
  csr_numNodes :: "64 word"
  csr_numEdges :: "64 word"

definition LC_CSR_build :: "FileGraph \<Rightarrow> failure + LC_CSR_Graph" where
  "LC_CSR_build graph =
     (let nn = ucast (size_FileGraph graph) :: 64 word;
          ne = ucast (sizeEdges graph) :: 64 word
      in case load64_table (masterMapping graph) (outIdx graph) (unat (numNodes graph)) of
           Inl f \<Rightarrow> Inl f
         | Inr ei \<Rightarrow>
             if unat nn < length ei then Inl MemoryFault
             else (case load32_table (masterMapping graph) (outs graph) (unat (numEdges graph)) of
                     Inl f \<Rightarrow> Inl f
                   | Inr ed \<Rightarrow>
                       if unat ne < length ed then Inl MemoryFault
                       else Inr \<lparr>csr_EdgeIndData = ei, csr_EdgeDst = ed,
                                 csr_numNodes = nn, csr_numEdges = ne\<rparr>))"

definition LC_CSR_structureFromFile :: "filesystem \<Rightarrow> string \<Rightarrow> failure + LC_CSR_Graph" where
  "LC_CSR_structureFromFile fs fname =
     (case structureFromFile FileGraph_ctor fs fname of Inl f \<Rightarrow> Inl f | Inr graph \<Rightarrow> LC_CSR_build graph)"

text \<open>
  The accessors of \<open>LC_CSR_Graph\<close>: a \<open>GraphNode\<close> is the node id, \<open>edge_begin(N)\<close>
  and \<open>edge_end(N)\<close> are \<open>raw_neighbor_begin(N)\<close> and \<open>raw_neighbor_end(N)\<close>,
  \<open>getEdgeDst(ni)\<close> is \<open>EdgeDst[*ni]\<close>. \<open>csr_edge_dsts\<close> is the loop
  \<open>for (ii = edge_begin(N); ii != edge_end(N); ++ii) getEdgeDst(ii)\<close>.
\<close>

definition csr_raw_neighbor_begin :: "LC_CSR_Graph \<Rightarrow> 32 word \<Rightarrow> failure + 64 word" where
  "csr_raw_neighbor_begin G N =
     (if N = 0 then Inr 0 else array_get (csr_EdgeIndData G) (unat (N - 1)))"

definition csr_raw_neighbor_end :: "LC_CSR_Graph \<Rightarrow> 32 word \<Rightarrow> failure + 64 word" where
  "csr_raw_neighbor_end G N = array_get (csr_EdgeIndData G) (unat N)"

definition csr_getEdgeDst :: "LC_CSR_Graph \<Rightarrow> nat \<Rightarrow> failure + 32 word" where
  "csr_getEdgeDst G ni = array_get (csr_EdgeDst G) ni"

function csr_edges_loop :: "LC_CSR_Graph \<Rightarrow> nat \<Rightarrow> nat \<Rightarrow> failure + 32 word list" where
  "csr_edges_loop G ii ee =
     (if ii = ee then Inr []
      else (case csr_getEdgeDst G ii of
              Inl f \<Rightarrow> Inl f
            | Inr d \<Rightarrow> (case csr_edges_loop G (ii + 1) ee of
                          Inl f \<Rightarrow> Inl f
                        | Inr ds \<Rightarrow> Inr (d # ds))))"
  by pat_completeness auto
termination
  by (relation "measure (\<lambda>(G, ii, ee). length (csr_EdgeDst G) - ii)")
     (auto simp: csr_getEdgeDst_def array_get_def split: if_splits)

definition csr_edge_dsts :: "LC_CSR_Graph \<Rightarrow> 32 word \<Rightarrow> failure + 32 word list" where
  "csr_edge_dsts G N =
     (case csr_raw_neighbor_begin G N of Inl f \<Rightarrow> Inl f | Inr b \<Rightarrow>
      (case csr_raw_neighbor_end G N of Inl f \<Rightarrow> Inl f | Inr e \<Rightarrow>
         csr_edges_loop G (unat b) (unat e)))"

text \<open>
  \<open>LC_CSRInline_Graph\<close>: every \<open>NodeInfo\<close> holds its range \<open>edgebegin\<close>, \<open>edgeend\<close>
  of \<open>EdgeData\<close>, and every \<open>EdgeInfo\<close> holds \<open>dst\<close>, a pointer to a \<open>NodeInfo\<close>. A
  pointer into \<open>NodeData\<close> or \<open>EdgeData\<close> is the index of the element; an element
  that has not been written is \<open>None\<close>. \<open>node_ids[*ii] = &NodeData[*ii]\<close> is the list
  \<open>node_ids\<close>.
\<close>

record Inline_NodeInfo =
  edgebegin :: nat
  edgeend :: nat

record LC_CSRInline_Graph =
  inl_NodeData :: "Inline_NodeInfo option list"
  inl_EdgeData :: "nat option list"
  inl_numNodes :: "64 word"
  inl_numEdges :: "64 word"
  inl_endNode :: nat

text \<open>
  The first loop of \<open>structureFromFile\<close> sets \<open>node_ids[*ii] = &NodeData[*ii]\<close> for
  every node of the file; \<open>NodeData\<close> and \<open>node_ids\<close> have \<open>graph.size()\<close>
  elements, and the loop runs over their end when the file has more nodes than that.
  The second loop: for every node, \<open>edgebegin = curEdge\<close>, then
  for every neighbour \<open>curEdge->dst = node_ids[*ni]; ++curEdge\<close>, then
  \<open>edgeend = curEdge\<close>.
\<close>

fun inline_edges :: "nat list \<Rightarrow> 32 word list \<Rightarrow> nat \<Rightarrow> nat option list \<Rightarrow> failure + nat \<times> nat option list" where
  "inline_edges node_ids [] curEdge ed = Inr (curEdge, ed)"
| "inline_edges node_ids (ni # nis) curEdge ed =
     (if curEdge < length ed \<and> unat ni < length node_ids
      then inline_edges node_ids nis (curEdge + 1) (ed[curEdge := Some (node_ids ! unat ni)])
      else Inl MemoryFault)"

fun inline_nodes :: "FileGraph \<Rightarrow> nat list \<Rightarrow> nat list \<Rightarrow> nat \<Rightarrow> Inline_NodeInfo option list \<Rightarrow>
    nat option list \<Rightarrow> failure + Inline_NodeInfo option list \<times> nat option list" where
  "inline_nodes graph node_ids [] curEdge nd ed = Inr (nd, ed)"
| "inline_nodes graph node_ids (ii # iis) curEdge nd ed =
     (if length node_ids \<le> ii \<or> length nd \<le> node_ids ! ii then Inl MemoryFault
      else (case neighbor_ids graph (word_of_nat ii) of
              Inl f \<Rightarrow> Inl f
            | Inr nis \<Rightarrow>
                (case inline_edges node_ids nis curEdge ed of
                   Inl f \<Rightarrow> Inl f
                 | Inr (curEdge', ed') \<Rightarrow>
                     inline_nodes graph node_ids iis curEdge'
                       (nd[node_ids ! ii := Some \<lparr>edgebegin = curEdge, edgeend = curEdge'\<rparr>]) ed')))"

definition LC_CSRInline_build :: "FileGraph \<Rightarrow> failure + LC_CSRInline_Graph" where
  "LC_CSRInline_build graph =
     (let nn = ucast (size_FileGraph graph) :: 64 word;
          ne = ucast (sizeEdges graph) :: 64 word;
          ids = [0..<unat (numNodes graph)]
      in if unat nn < length ids then Inl MemoryFault
         else (case inline_nodes graph ids ids 0 (replicate (unat nn) None) (replicate (unat ne) None) of
                 Inl f \<Rightarrow> Inl f
               | Inr (nd, ed) \<Rightarrow>
                   Inr \<lparr>inl_NodeData = nd, inl_EdgeData = ed, inl_numNodes = nn,
                        inl_numEdges = ne, inl_endNode = unat nn\<rparr>))"

definition LC_CSRInline_structureFromFile :: "filesystem \<Rightarrow> string \<Rightarrow> failure + LC_CSRInline_Graph" where
  "LC_CSRInline_structureFromFile fs fname =
     (case structureFromFile FileGraph_ctor fs fname of Inl f \<Rightarrow> Inl f | Inr graph \<Rightarrow> LC_CSRInline_build graph)"

text \<open>
  The accessors of \<open>LC_CSRInline_Graph\<close>: a \<open>GraphNode\<close> is a \<open>NodeInfo*\<close>,
  \<open>edge_begin(N)\<close> is \<open>N->edgebegin\<close>, \<open>edge_end(N)\<close> is \<open>N->edgeend\<close>,
  \<open>getEdgeDst(ni)\<close> is \<open>ni->dst\<close>.
\<close>

definition inl_node :: "LC_CSRInline_Graph \<Rightarrow> nat \<Rightarrow> failure + Inline_NodeInfo" where
  "inl_node G N =
     (case array_get (inl_NodeData G) N of
        Inl f \<Rightarrow> Inl f | Inr None \<Rightarrow> Inl MemoryFault | Inr (Some ni) \<Rightarrow> Inr ni)"

definition inl_edge_begin :: "LC_CSRInline_Graph \<Rightarrow> nat \<Rightarrow> failure + nat" where
  "inl_edge_begin G N = (case inl_node G N of Inl f \<Rightarrow> Inl f | Inr ni \<Rightarrow> Inr (edgebegin ni))"

definition inl_edge_end :: "LC_CSRInline_Graph \<Rightarrow> nat \<Rightarrow> failure + nat" where
  "inl_edge_end G N = (case inl_node G N of Inl f \<Rightarrow> Inl f | Inr ni \<Rightarrow> Inr (edgeend ni))"

definition inl_getEdgeDst :: "LC_CSRInline_Graph \<Rightarrow> nat \<Rightarrow> failure + nat" where
  "inl_getEdgeDst G ni =
     (case array_get (inl_EdgeData G) ni of
        Inl f \<Rightarrow> Inl f | Inr None \<Rightarrow> Inl MemoryFault | Inr (Some d) \<Rightarrow> Inr d)"

function inl_edges_loop :: "LC_CSRInline_Graph \<Rightarrow> nat \<Rightarrow> nat \<Rightarrow> failure + nat list" where
  "inl_edges_loop G ii ee =
     (if ii = ee then Inr []
      else (case inl_getEdgeDst G ii of
              Inl f \<Rightarrow> Inl f
            | Inr d \<Rightarrow> (case inl_edges_loop G (ii + 1) ee of
                          Inl f \<Rightarrow> Inl f
                        | Inr ds \<Rightarrow> Inr (d # ds))))"
  by pat_completeness auto
termination
  by (relation "measure (\<lambda>(G, ii, ee). length (inl_EdgeData G) - ii)")
     (auto simp: inl_getEdgeDst_def array_get_def split: if_splits option.splits)

definition inl_edge_dsts :: "LC_CSRInline_Graph \<Rightarrow> nat \<Rightarrow> failure + nat list" where
  "inl_edge_dsts G N =
     (case inl_edge_begin G N of Inl f \<Rightarrow> Inl f | Inr b \<Rightarrow>
      (case inl_edge_end G N of Inl f \<Rightarrow> Inl f | Inr e \<Rightarrow> inl_edges_loop G b e))"

text \<open>
  \<open>LC_Linear_Graph\<close> and \<open>LC_Linear2_Graph\<close> lay every node out as a \<open>NodeInfo\<close>
  followed by its \<open>EdgeInfo\<close> records, in raw memory. The sizes \<open>sizeof(NodeInfo)\<close>,
  \<open>sizeof(EdgeInfo)\<close> and \<open>sizeof(Header)\<close> depend on the template parameters and are
  parameters here.

  Memory is a set of blocks, one for each allocation. A pointer is a block and a byte
  offset in it; \<open>block_size\<close> is the number of bytes allocated (0 for a block never
  allocated). \<open>cells\<close> records what has been stored at a pointer: a \<open>NodeInfo\<close> with
  its member \<open>numEdges\<close> (an \<open>int\<close>), or an \<open>EdgeInfo\<close> with its member \<open>dst\<close>. A
  store or a load of an object that does not lie inside its block is \<open>MemoryFault\<close>.
\<close>

record lc_sizes =
  sizeof_NodeInfo :: nat
  sizeof_EdgeInfo :: nat
  sizeof_Header :: nat

type_synonym ptr = "nat \<times> int"

datatype cell = NodeCell int | EdgeCell ptr

record memory =
  cells :: "ptr \<Rightarrow> cell option"
  block_size :: "nat \<Rightarrow> nat"

definition in_block :: "memory \<Rightarrow> ptr \<Rightarrow> nat \<Rightarrow> bool" where
  "in_block mem p sz \<longleftrightarrow> 0 \<le> snd p \<and> nat (snd p) + sz \<le> block_size mem (fst p)"

definition write_cell :: "memory \<Rightarrow> ptr \<Rightarrow> nat \<Rightarrow> cell \<Rightarrow> failure + memory" where
  "write_cell mem p sz c =
     (if in_block mem p sz then Inr (mem\<lparr>cells := (cells mem)(p \<mapsto> c)\<rparr>) else Inl MemoryFault)"

definition read_numEdges :: "memory \<Rightarrow> ptr \<Rightarrow> failure + int" where
  "read_numEdges mem p =
     (case cells mem p of Some (NodeCell ne) \<Rightarrow> Inr ne | _ \<Rightarrow> Inl MemoryFault)"

definition read_dst :: "lc_sizes \<Rightarrow> memory \<Rightarrow> ptr \<Rightarrow> failure + ptr" where
  "read_dst S mem p =
     (if in_block mem p (sizeof_EdgeInfo S)
      then (case cells mem p of Some (EdgeCell d) \<Rightarrow> Inr d | _ \<Rightarrow> Inl MemoryFault)
      else Inl MemoryFault)"

text \<open>
  \<open>NodeInfo::edgeBegin()\<close> is the address behind the \<open>NodeInfo\<close>, \<open>edgeEnd()\<close> is
  \<open>numEdges\<close> \<open>EdgeInfo\<close>s further, and \<open>next()\<close> steps in units of
  \<open>sizeof(NodeInfo)\<close> from the node until it is not below \<open>edgeEnd()\<close>:
  \<open>while ((char*)ni < (char*)ei) ++ni\<close>.
\<close>

definition edgeBegin :: "lc_sizes \<Rightarrow> ptr \<Rightarrow> ptr" where
  "edgeBegin S n = (fst n, snd n + int (sizeof_NodeInfo S))"

definition edgeEnd :: "lc_sizes \<Rightarrow> memory \<Rightarrow> ptr \<Rightarrow> failure + ptr" where
  "edgeEnd S mem n =
     (case read_numEdges mem n of
        Inl f \<Rightarrow> Inl f
      | Inr ne \<Rightarrow> Inr (fst n, snd (edgeBegin S n) + ne * int (sizeof_EdgeInfo S)))"

function next_loop :: "nat \<Rightarrow> int \<Rightarrow> int \<Rightarrow> int" where
  "next_loop sz ni ei = (if ni < ei \<and> 0 < sz then next_loop sz (ni + int sz) ei else ni)"
  by pat_completeness auto
termination
  by (relation "measure (\<lambda>(sz, ni, ei). nat (ei - ni))") auto

declare next_loop.simps [simp del]

definition next_node :: "lc_sizes \<Rightarrow> memory \<Rightarrow> ptr \<Rightarrow> failure + ptr" where
  "next_node S mem n =
     (case edgeEnd S mem n of
        Inl f \<Rightarrow> Inl f
      | Inr ei \<Rightarrow> Inr (fst n, next_loop (sizeof_NodeInfo S) (snd n) (snd ei)))"

text \<open>
  The first loop of \<open>LC_Linear_Graph::structureFromFile\<close>, which is also the loop of
  \<open>AllocateNodes\<close>: \<open>curNode->numEdges = graph.neighborsSize(*ii)\<close> (a \<open>size_t\<close>
  stored into an \<open>int\<close>), \<open>nodes[*ii] = curNode\<close>, \<open>curNode = curNode->next()\<close>.
\<close>

fun place_nodes :: "lc_sizes \<Rightarrow> FileGraph \<Rightarrow> nat list \<Rightarrow> ptr \<Rightarrow> memory \<Rightarrow> ptr option list \<Rightarrow>
    failure + ptr \<times> memory \<times> ptr option list" where
  "place_nodes S graph [] cur mem nodes = Inr (cur, mem, nodes)"
| "place_nodes S graph (ii # iis) cur mem nodes =
     (case neighborsSize graph (word_of_nat ii) of
        Inl f \<Rightarrow> Inl f
      | Inr sz \<Rightarrow>
          (case write_cell mem cur (sizeof_NodeInfo S) (NodeCell (sint (ucast sz :: 32 word))) of
             Inl f \<Rightarrow> Inl f
           | Inr mem1 \<Rightarrow>
               if length nodes \<le> ii then Inl MemoryFault
               else (case next_node S mem1 cur of
                       Inl f \<Rightarrow> Inl f
                     | Inr cur1 \<Rightarrow> place_nodes S graph iis cur1 mem1 (nodes[ii := Some cur]))))"

text \<open>
  The second loop, also the loop of \<open>AllocateEdges\<close>: \<open>edge = nodes[*ii]->edgeBegin()\<close>,
  then for every neighbour \<open>edge->dst = nodes[*ni]; ++edge\<close>.
\<close>

definition node_ptr :: "ptr option list \<Rightarrow> nat \<Rightarrow> failure + ptr" where
  "node_ptr nodes i =
     (case array_get nodes i of Inl f \<Rightarrow> Inl f | Inr None \<Rightarrow> Inl MemoryFault | Inr (Some p) \<Rightarrow> Inr p)"

fun place_node_edges :: "lc_sizes \<Rightarrow> ptr option list \<Rightarrow> 32 word list \<Rightarrow> ptr \<Rightarrow> memory \<Rightarrow> failure + memory" where
  "place_node_edges S nodes [] edge mem = Inr mem"
| "place_node_edges S nodes (ni # nis) edge mem =
     (case node_ptr nodes (unat ni) of
        Inl f \<Rightarrow> Inl f
      | Inr d \<Rightarrow>
          (case write_cell mem edge (sizeof_EdgeInfo S) (EdgeCell d) of
             Inl f \<Rightarrow> Inl f
           | Inr mem1 \<Rightarrow>
               place_node_edges S nodes nis (fst edge, snd edge + int (sizeof_EdgeInfo S)) mem1))"

fun place_edges :: "lc_sizes \<Rightarrow> FileGraph \<Rightarrow> ptr option list \<Rightarrow> nat list \<Rightarrow> memory \<Rightarrow> failure + memory" where
  "place_edges S graph nodes [] mem = Inr mem"
| "place_edges S graph nodes (ii # iis) mem =
     (case node_ptr nodes ii of
        Inl f \<Rightarrow> Inl f
      | Inr n \<Rightarrow>
          (case neighbor_ids graph (word_of_nat ii) of
             Inl f \<Rightarrow> Inl f
           | Inr nis \<Rightarrow>
               (case place_node_edges S nodes nis (edgeBegin S n) mem of
                  Inl f \<Rightarrow> Inl f
                | Inr mem1 \<Rightarrow> place_edges S graph nodes iis mem1)))"

text \<open>
  \<open>LC_Linear_Graph::structureFromFile\<close>: one block of
  \<open>sizeof(NodeInfo) * numNodes * 2 + sizeof(EdgeInfo) * numEdges\<close> bytes (block 0;
  the size is computed in \<open>size_t\<close>, taken to have 64 bits, so modulo \<open>2^64\<close>) and
  the array \<open>nodes\<close> of \<open>numNodes\<close> pointers, with \<open>numNodes\<close> and \<open>numEdges\<close> again
  from \<open>size()\<close> and \<open>sizeEdges()\<close>.
\<close>

record LC_Linear_Graph =
  lin_mem :: memory
  lin_nodes :: "ptr option list"
  lin_numNodes :: "64 word"
  lin_numEdges :: "64 word"

definition empty_memory :: memory where
  "empty_memory = \<lparr>cells = (\<lambda>p. None), block_size = (\<lambda>b. 0)\<rparr>"

definition alloc_block :: "memory \<Rightarrow> nat \<Rightarrow> nat \<Rightarrow> memory" where
  "alloc_block mem b sz = mem\<lparr>block_size := (block_size mem)(b := sz)\<rparr>"

definition LC_Linear_build :: "lc_sizes \<Rightarrow> FileGraph \<Rightarrow> failure + LC_Linear_Graph" where
  "LC_Linear_build S graph =
     (let nn = ucast (size_FileGraph graph) :: 64 word;
          ne = ucast (sizeEdges graph) :: 64 word;
          mem = alloc_block empty_memory 0
                  ((sizeof_NodeInfo S * unat nn * 2 + sizeof_EdgeInfo S * unat ne) mod 2 ^ 64);
          nodes = replicate (unat nn) None;
          ids = [0..<unat (numNodes graph)]
      in case place_nodes S graph ids (0, 0) mem nodes of
           Inl f \<Rightarrow> Inl f
         | Inr (cur, mem1, nodes1) \<Rightarrow>
             (case place_edges S graph nodes1 ids mem1 of
                Inl f \<Rightarrow> Inl f
              | Inr mem2 \<Rightarrow>
                  Inr \<lparr>lin_mem = mem2, lin_nodes = nodes1, lin_numNodes = nn, lin_numEdges = ne\<rparr>))"

definition LC_Linear_structureFromFile :: "lc_sizes \<Rightarrow> filesystem \<Rightarrow> string \<Rightarrow> failure + LC_Linear_Graph" where
  "LC_Linear_structureFromFile S fs fname =
     (case structureFromFile FileGraph_ctor fs fname of Inl f \<Rightarrow> Inl f | Inr graph \<Rightarrow> LC_Linear_build S graph)"

text \<open>
  The accessors of both linear graphs: a \<open>GraphNode\<close> is a \<open>NodeInfo*\<close>,
  \<open>edge_begin(N)\<close> is \<open>N->edgeBegin()\<close>, \<open>edge_end(N)\<close> is \<open>N->edgeEnd()\<close>,
  \<open>getEdgeDst(ni)\<close> is \<open>ni->dst\<close>; \<open>ptr_edge_dsts\<close> is the loop over the edges of a
  node.
\<close>

function ptr_edges_loop :: "lc_sizes \<Rightarrow> memory \<Rightarrow> ptr \<Rightarrow> ptr \<Rightarrow> failure + ptr list" where
  "ptr_edges_loop S mem e ee =
     (if e = ee then Inr []
      else if sizeof_EdgeInfo S = 0 then Inl MemoryFault
      else (case read_dst S mem e of
              Inl f \<Rightarrow> Inl f
            | Inr d \<Rightarrow> (case ptr_edges_loop S mem (fst e, snd e + int (sizeof_EdgeInfo S)) ee of
                          Inl f \<Rightarrow> Inl f
                        | Inr ds \<Rightarrow> Inr (d # ds))))"
  by pat_completeness auto
termination
  by (relation "measure (\<lambda>(S, mem, e, ee). block_size mem (fst e) - nat (snd e))")
     (auto simp: read_dst_def in_block_def split: if_splits)

declare ptr_edges_loop.simps [simp del]

definition ptr_edge_dsts :: "lc_sizes \<Rightarrow> memory \<Rightarrow> ptr \<Rightarrow> failure + ptr list" where
  "ptr_edge_dsts S mem N =
     (case edgeEnd S mem N of
        Inl f \<Rightarrow> Inl f
      | Inr ee \<Rightarrow> ptr_edges_loop S mem (edgeBegin S N) ee)"

definition lin_edge_dsts :: "lc_sizes \<Rightarrow> LC_Linear_Graph \<Rightarrow> ptr \<Rightarrow> failure + ptr list" where
  "lin_edge_dsts S G N = ptr_edge_dsts S (lin_mem G) N"

text \<open>
  \<open>LC_Linear2_Graph\<close>: \<open>distribute\<close> cuts the nodes into one range for each thread,
  \<open>AllocateNodes\<close> lays out the nodes of a thread's range in a block of the thread's
  own, and \<open>AllocateEdges\<close> fills in the edges.

  Modelled from the spec: \<open>PerCPU\<close>, \<open>Galois::on_each\<close>, \<open>getActiveThreads\<close> and
  \<open>MM::largeAlloc\<close> are not among the sources. \<open>PerCPU<T>\<close> is one zero-initialised
  \<open>T\<close> for each thread, a list indexed by the thread id; \<open>getActiveThreads()\<close> is the
  parameter \<open>num\<close>; \<open>on_each(f)\<close> calls \<open>f(tid, num)\<close> once on every thread and
  returns when all calls have returned, here one call after the other in an order that
  is a parameter (the schedule, a list of thread ids); \<open>largeAlloc(size)\<close> returns a
  fresh block of \<open>size\<close> bytes, the block \<open>tid + 1\<close> for the call of thread \<open>tid\<close>
  (block 0 is not used).

  Sizes are computed in \<open>size_t\<close>, which is taken to have 64 bits: modulo \<open>2^64\<close>.
  The counters \<open>nnodes\<close>, \<open>nedges\<close>, \<open>runningNodes\<close> and \<open>runningEdges\<close> count
  nodes and edges of the graph, whose numbers are below \<open>2^64\<close>.
\<close>

record Header =
  h_begin :: ptr
  h_end :: ptr
  h_size :: nat

record DistributeInfo =
  d_numNodes :: nat
  d_numEdges :: nat
  d_begin :: nat
  d_end :: nat

definition DistributeInfo_zero :: DistributeInfo where
  "DistributeInfo_zero = \<lparr>d_numNodes = 0, d_numEdges = 0, d_begin = 0, d_end = 0\<rparr>"

text \<open>
  The inner loop of \<open>distribute\<close> for one thread: it stops with \<open>break\<close> at the first
  node at which \<open>curSize >= (tid + 1) * blockSize\<close>, or at the end of the nodes.
\<close>

fun distribute_scan :: "lc_sizes \<Rightarrow> FileGraph \<Rightarrow> nat \<Rightarrow> nat list \<Rightarrow> nat \<Rightarrow> nat \<Rightarrow> nat \<Rightarrow>
    failure + bool \<times> nat list \<times> nat \<times> nat \<times> nat" where
  "distribute_scan S graph bound [] curSize nnodes nedges = Inr (False, [], curSize, nnodes, nedges)"
| "distribute_scan S graph bound (ii # iis) curSize nnodes nedges =
     (if bound \<le> curSize then Inr (True, ii # iis, curSize, nnodes, nedges)
      else (case neighborsSize graph (word_of_nat ii) of
              Inl f \<Rightarrow> Inl f
            | Inr nneighbors \<Rightarrow>
                distribute_scan S graph bound iis
                  ((curSize + sizeof_NodeInfo S + sizeof_EdgeInfo S * unat nneighbors) mod 2 ^ 64)
                  (nnodes + 1) (nedges + unat nneighbors)))"

text \<open>
  The outer loop \<open>for (tid = 0; tid + 1 < num; ++tid)\<close> with its local variables; a
  thread whose inner loop ends without \<open>break\<close> gets no entry. The last thread gets
  what is left, \<open>numNodes - runningNodes\<close> nodes and \<open>numEdges - runningEdges\<close>
  edges, from \<open>last\<close> to the end.
\<close>

record distribute_state =
  ds_rest :: "nat list"
  ds_last :: nat
  ds_curSize :: nat
  ds_nnodes :: nat
  ds_nedges :: nat
  ds_runningNodes :: nat
  ds_runningEdges :: nat
  ds_dinfo :: "DistributeInfo list"

fun distribute_threads :: "lc_sizes \<Rightarrow> FileGraph \<Rightarrow> nat \<Rightarrow> nat \<Rightarrow> nat list \<Rightarrow> distribute_state \<Rightarrow>
    failure + distribute_state" where
  "distribute_threads S graph ei blockSize [] st = Inr st"
| "distribute_threads S graph ei blockSize (tid # tids) st =
     (case distribute_scan S graph (((tid + 1) * blockSize) mod 2 ^ 64) (ds_rest st)
             (ds_curSize st) (ds_nnodes st) (ds_nedges st) of
        Inl f \<Rightarrow> Inl f
      | Inr (True, rest, curSize, nnodes, nedges) \<Rightarrow>
          if length (ds_dinfo st) \<le> tid then Inl MemoryFault
          else distribute_threads S graph ei blockSize tids
                 (st\<lparr>ds_rest := rest, ds_last := ei - length rest, ds_curSize := curSize,
                     ds_nnodes := 0, ds_nedges := 0,
                     ds_runningNodes := ds_runningNodes st + nnodes,
                     ds_runningEdges := ds_runningEdges st + nedges,
                     ds_dinfo := (ds_dinfo st)[tid := \<lparr>d_numNodes = nnodes, d_numEdges = nedges,
                                     d_begin = ds_last st, d_end = ei - length rest\<rparr>]\<rparr>)
      | Inr (False, rest, curSize, nnodes, nedges) \<Rightarrow>
          distribute_threads S graph ei blockSize tids
            (st\<lparr>ds_rest := rest, ds_curSize := curSize, ds_nnodes := nnodes, ds_nedges := nedges\<rparr>))"

definition distribute :: "lc_sizes \<Rightarrow> FileGraph \<Rightarrow> nat \<Rightarrow> 64 word \<Rightarrow> 64 word \<Rightarrow> failure + DistributeInfo list" where
  "distribute S graph num nn ne =
     (let total = (sizeof_NodeInfo S * unat nn + sizeof_EdgeInfo S * unat ne) mod 2 ^ 64;
          blockSize = total div num;
          ei = unat (numNodes graph)
      in case distribute_threads S graph ei blockSize [0..<num - 1]
                \<lparr>ds_rest = [0..<ei], ds_last = 0, ds_curSize = 0, ds_nnodes = 0, ds_nedges = 0,
                 ds_runningNodes = 0, ds_runningEdges = 0,
                 ds_dinfo = replicate num DistributeInfo_zero\<rparr> of
           Inl f \<Rightarrow> Inl f
         | Inr st \<Rightarrow>
             if num = 0 then Inl MemoryFault
             else Inr ((ds_dinfo st)[num - 1 :=
                         \<lparr>d_numNodes = unat (nn - word_of_nat (ds_runningNodes st)),
                          d_numEdges = unat (ne - word_of_nat (ds_runningEdges st)),
                          d_begin = ds_last st, d_end = ei\<rparr>]))"

record LC_Linear2_Graph =
  l2_mem :: memory
  l2_headers :: "Header option list"
  l2_nodes :: "ptr option list"
  l2_numNodes :: "64 word"
  l2_numEdges :: "64 word"

definition AllocateNodes :: "lc_sizes \<Rightarrow> FileGraph \<Rightarrow> DistributeInfo list \<Rightarrow> nat \<Rightarrow> LC_Linear2_Graph \<Rightarrow>
    failure + LC_Linear2_Graph" where
  "AllocateNodes S graph dinfo tid G =
     (if length dinfo \<le> tid \<or> length (l2_headers G) \<le> tid then Inl MemoryFault
      else
        (let d = dinfo ! tid;
             sz = (sizeof_Header S * 2 + sizeof_NodeInfo S * d_numNodes d * 2
                    + sizeof_EdgeInfo S * d_numEdges d) mod 2 ^ 64;
             raw = Suc tid;
             mem = alloc_block (l2_mem G) raw sz;
             first = (raw, int (sizeof_Header S));
             h = \<lparr>h_begin = first, h_end = first, h_size = sz\<rparr>
         in if d_numNodes d = 0
            then Inr (G\<lparr>l2_mem := mem, l2_headers := (l2_headers G)[tid := Some h]\<rparr>)
            else if d_end d < d_begin d then Inl MemoryFault
            else (case place_nodes S graph [d_begin d..<d_end d] first mem (l2_nodes G) of
                    Inl f \<Rightarrow> Inl f
                  | Inr (cur, mem1, nodes1) \<Rightarrow>
                      Inr (G\<lparr>l2_mem := mem1, l2_nodes := nodes1,
                             l2_headers := (l2_headers G)[tid := Some (h\<lparr>h_end := cur\<rparr>)]\<rparr>))))"

definition AllocateEdges :: "lc_sizes \<Rightarrow> FileGraph \<Rightarrow> DistributeInfo list \<Rightarrow> nat \<Rightarrow> LC_Linear2_Graph \<Rightarrow>
    failure + LC_Linear2_Graph" where
  "AllocateEdges S graph dinfo tid G =
     (if length dinfo \<le> tid then Inl MemoryFault
      else
        (let d = dinfo ! tid
         in if d_numNodes d = 0 then Inr G
            else if d_end d < d_begin d then Inl MemoryFault
            else (case place_edges S graph (l2_nodes G) [d_begin d..<d_end d] (l2_mem G) of
                    Inl f \<Rightarrow> Inl f
                  | Inr mem1 \<Rightarrow> Inr (G\<lparr>l2_mem := mem1\<rparr>))))"

fun on_each :: "(nat \<Rightarrow> 'g \<Rightarrow> failure + 'g) \<Rightarrow> nat list \<Rightarrow> 'g \<Rightarrow> failure + 'g" where
  "on_each fn [] G = Inr G"
| "on_each fn (tid # tids) G = (case fn tid G of Inl f \<Rightarrow> Inl f | Inr G1 \<Rightarrow> on_each fn tids G1)"

definition LC_Linear2_build :: "lc_sizes \<Rightarrow> nat \<Rightarrow> nat list \<Rightarrow> nat list \<Rightarrow> FileGraph \<Rightarrow>
    failure + LC_Linear2_Graph" where
  "LC_Linear2_build S num sched1 sched2 graph =
     (let nn = ucast (size_FileGraph graph) :: 64 word;
          ne = ucast (sizeEdges graph) :: 64 word
      in case distribute S graph num nn ne of
           Inl f \<Rightarrow> Inl f
         | Inr dinfo \<Rightarrow>
             (case on_each (AllocateNodes S graph dinfo) sched1
                     \<lparr>l2_mem = empty_memory, l2_headers = replicate num None,
                      l2_nodes = replicate (unat nn) None, l2_numNodes = nn, l2_numEdges = ne\<rparr> of
                Inl f \<Rightarrow> Inl f
              | Inr G1 \<Rightarrow> on_each (AllocateEdges S graph dinfo) sched2 G1))"

definition LC_Linear2_structureFromFile :: "lc_sizes \<Rightarrow> nat \<Rightarrow> nat list \<Rightarrow> nat list \<Rightarrow> filesystem \<Rightarrow>
    string \<Rightarrow> failure + LC_Linear2_Graph" where
  "LC_Linear2_structureFromFile S num sched1 sched2 fs fname =
     (case structureFromFile FileGraph_ctor fs fname of
        Inl f \<Rightarrow> Inl f
      | Inr graph \<Rightarrow> LC_Linear2_build S num sched1 sched2 graph)"

definition l2_edge_dsts :: "lc_sizes \<Rightarrow> LC_Linear2_Graph \<Rightarrow> ptr \<Rightarrow> failure + ptr list" where
  "l2_edge_dsts S G N = ptr_edge_dsts S (l2_mem G) N"

text \<open>
  The topology of a file graph, as the specification words it: \<open>node_dests g k\<close> are the
  destinations of node \<open>k\<close>, the entries of the destination table from
  \<open>offset[k-1]\<close> (0 for node 0) up to \<open>offset[k]\<close>; \<open>degree\<close> is their number.

  Where the linear layouts have put a node: \<open>placed\<close> says of every node of \<open>K\<close> that
  \<open>nodes[k]\<close> points to a \<open>NodeInfo\<close> with \<open>numEdges\<close> the degree of \<open>k\<close>, that the
  \<open>NodeInfo\<close> and its \<open>EdgeInfo\<close>s lie inside the block, and that the records of two
  nodes in one block do not overlap; \<open>edges_ok\<close> says that the \<open>j\<close>-th \<open>EdgeInfo\<close>
  behind node \<open>k\<close> holds the pointer to the node of the \<open>j\<close>-th destination of \<open>k\<close>.
  \<open>node_weight\<close> bounds the bytes one node takes.
\<close>

definition node_dests :: "FileGraph \<Rightarrow> nat \<Rightarrow> 32 word list" where
  "node_dests g k =
     map (\<lambda>i. dests g ! i)
       [unat (if k = 0 then 0 else offsets g ! (k - 1))..<unat (offsets g ! k)]"

definition edge_start :: "FileGraph \<Rightarrow> nat \<Rightarrow> nat" where
  "edge_start g k = unat (if k = 0 then 0 else offsets g ! (k - 1))"

definition degree :: "FileGraph \<Rightarrow> nat \<Rightarrow> nat" where
  "degree g k = length (node_dests g k)"

definition node_end :: "lc_sizes \<Rightarrow> FileGraph \<Rightarrow> nat \<Rightarrow> int \<Rightarrow> int" where
  "node_end S g k a = a + int (sizeof_NodeInfo S) + int (degree g k) * int (sizeof_EdgeInfo S)"

definition placed :: "lc_sizes \<Rightarrow> FileGraph \<Rightarrow> nat set \<Rightarrow> ptr option list \<Rightarrow> memory \<Rightarrow> bool" where
  "placed S g K nodes mem \<longleftrightarrow>
     (\<forall>k\<in>K. k < length nodes \<and>
        (\<exists>B a. nodes ! k = Some (B, a) \<and> 0 \<le> a \<and>
           cells mem (B, a) = Some (NodeCell (int (degree g k))) \<and>
           node_end S g k a \<le> int (block_size mem B))) \<and>
     (\<forall>k\<in>K. \<forall>k'\<in>K. \<forall>B a a'. k \<noteq> k' \<longrightarrow> nodes ! k = Some (B, a) \<longrightarrow> nodes ! k' = Some (B, a') \<longrightarrow>
        node_end S g k a \<le> a' \<or> node_end S g k' a' \<le> a)"

definition edges_ok :: "lc_sizes \<Rightarrow> FileGraph \<Rightarrow> ptr option list \<Rightarrow> memory \<Rightarrow> nat \<Rightarrow> bool" where
  "edges_ok S g nodes mem k \<longleftrightarrow>
     (\<exists>B a. nodes ! k = Some (B, a) \<and>
        (\<forall>j<degree g k.
           cells mem (B, a + int (sizeof_NodeInfo S) + int j * int (sizeof_EdgeInfo S)) =
             Some (EdgeCell (the (nodes ! unat (node_dests g k ! j))))))"

definition node_weight :: "lc_sizes \<Rightarrow> FileGraph \<Rightarrow> nat \<Rightarrow> nat" where
  "node_weight S g k = 2 * sizeof_NodeInfo S + degree g k * sizeof_EdgeInfo S"

text \<open>
  Sizes for the examples: a \<open>NodeInfo\<close> of 24 bytes, an \<open>EdgeInfo\<close> of 16, a \<open>Header\<close>
  of 40.
\<close>

definition example_sizes :: lc_sizes where
  "example_sizes = \<lparr>sizeof_NodeInfo = 24, sizeof_EdgeInfo = 16, sizeof_Header = 40\<rparr>"

text \<open>
  What the builders establish, for the proofs. \<open>inline_node_info\<close> is the \<open>NodeInfo\<close> of
  node \<open>i\<close> in \<open>LC_CSRInline_Graph\<close>. \<open>dinfo_ok g t l dinfo\<close>: the entries of the
  threads below \<open>t\<close> are ranges of nodes below \<open>l\<close> that do not overlap and cover all
  nodes below \<open>l\<close>, with the counts of their nodes and edges; the other entries are
  zero. \<open>dist_inv\<close> is the invariant of the outer loop of \<open>distribute\<close>. \<open>covered\<close>
  are the nodes of the ranges of the threads of a set \<open>T\<close>; \<open>nodes_inv\<close> and
  \<open>edges_inv\<close> are the invariants of the two \<open>on_each\<close> calls, \<open>T\<close> the threads
  whose call has returned.
\<close>

definition inline_node_info :: "FileGraph \<Rightarrow> nat \<Rightarrow> Inline_NodeInfo option" where
  "inline_node_info g i = Some \<lparr>edgebegin = edge_start g i, edgeend = edge_start g (Suc i)\<rparr>"

definition dinfo_ok :: "FileGraph \<Rightarrow> nat \<Rightarrow> nat \<Rightarrow> DistributeInfo list \<Rightarrow> bool" where
  "dinfo_ok g t l dinfo \<longleftrightarrow>
     t \<le> length dinfo \<and>
     (\<forall>tid<length dinfo. t \<le> tid \<longrightarrow> dinfo ! tid = DistributeInfo_zero) \<and>
     (\<forall>tid<t. d_begin (dinfo ! tid) \<le> d_end (dinfo ! tid) \<and> d_end (dinfo ! tid) \<le> l \<and>
        d_numNodes (dinfo ! tid) = d_end (dinfo ! tid) - d_begin (dinfo ! tid) \<and>
        d_numEdges (dinfo ! tid) =
          edge_start g (d_end (dinfo ! tid)) - edge_start g (d_begin (dinfo ! tid))) \<and>
     (\<forall>k<l. \<exists>tid<t. d_begin (dinfo ! tid) \<le> k \<and> k < d_end (dinfo ! tid)) \<and>
     (\<forall>t1<t. \<forall>t2<t. t1 \<noteq> t2 \<longrightarrow>
        d_end (dinfo ! t1) \<le> d_begin (dinfo ! t2) \<or> d_end (dinfo ! t2) \<le> d_begin (dinfo ! t1))"

definition dist_inv :: "FileGraph \<Rightarrow> nat \<Rightarrow> distribute_state \<Rightarrow> bool" where
  "dist_inv g t st \<longleftrightarrow>
     (\<exists>i. i \<le> unat (numNodes g) \<and> ds_last st \<le> i \<and> ds_rest st = [i..<unat (numNodes g)] \<and>
        ds_nnodes st = i - ds_last st \<and>
        ds_nedges st = edge_start g i - edge_start g (ds_last st) \<and>
        ds_runningNodes st = ds_last st \<and> ds_runningEdges st = edge_start g (ds_last st) \<and>
        dinfo_ok g t (ds_last st) (ds_dinfo st))"

definition covered :: "DistributeInfo list \<Rightarrow> nat set \<Rightarrow> nat set" where
  "covered dinfo T = (\<Union>tid\<in>T. {d_begin (dinfo ! tid)..<d_end (dinfo ! tid)})"

definition nodes_inv :: "lc_sizes \<Rightarrow> FileGraph \<Rightarrow> DistributeInfo list \<Rightarrow> nat \<Rightarrow> nat set \<Rightarrow>
    LC_Linear2_Graph \<Rightarrow> bool" where
  "nodes_inv S g dinfo num T G \<longleftrightarrow>
     length (l2_nodes G) = unat (numNodes g) \<and> length (l2_headers G) = num \<and>
     placed S g (covered dinfo T) (l2_nodes G) (l2_mem G) \<and>
     (\<forall>k\<in>covered dinfo T. \<exists>tid a. l2_nodes G ! k = Some (Suc tid, a) \<and> tid \<in> T)"

definition edges_inv :: "lc_sizes \<Rightarrow> FileGraph \<Rightarrow> DistributeInfo list \<Rightarrow> nat set \<Rightarrow>
    LC_Linear2_Graph \<Rightarrow> bool" where
  "edges_inv S g dinfo T G \<longleftrightarrow>
     length (l2_nodes G) = unat (numNodes g) \<and>
     placed S g {..<unat (numNodes g)} (l2_nodes G) (l2_mem G) \<and>
     (\<forall>k\<in>covered dinfo T. k < unat (numNodes g) \<and> edges_ok S g (l2_nodes G) (l2_mem G) k)"

text \<open>
  A graph with one node and \<open>2^32\<close> edges, all to node 0: version 1, no edge payload,
  1 node, \<open>2^32\<close> edges, the offset \<open>2^32\<close>, and \<open>2^32\<close> destinations 0.
\<close>

definition huge_header :: "byte list" where
  "huge_header =
     [1,0,0,0,0,0,0,0,  0,0,0,0,0,0,0,0,  1,0,0,0,0,0,0,0,  0,0,0,0,1,0,0,0,
      0,0,0,0,1,0,0,0]"

definition huge_image :: "byte list" where
  "huge_image = huge_header @ replicate (4 * 2 ^ 32) 0"

definition huge_graph :: FileGraph where
  "huge_graph = \<lparr>masterMapping = huge_image, masterLength = 40 + 4 * 2 ^ 32, sizeEdgeTy = 0,
     masterFD = 3, outIdx = 32, outs = 40, edgeData = 40 + 4 * 2 ^ 32,
     numEdges = 2 ^ 32, numNodes = 1\<rparr>"


section \<open>Properties of safe\_advance\<close>

text \<open>
  The overload for input iterators stops at \<open>e\<close>: it yields \<open>b + n\<close> when \<open>n\<close> is at
  most the distance to \<open>e\<close>, and \<open>e\<close> otherwise.
\<close>

lemma safe_advance_dispatch_input_spec:
  "b \<le> e \<Longrightarrow> safe_advance_dispatch_input b e n = (if int n \<le> e - b then b + int n else e)"
  by (induction b e n rule: safe_advance_dispatch_input.induct) auto

text \<open>
  The overload for random-access iterators has the comparison the other way round: it
  steps by \<open>n\<close> exactly when \<open>e\<close> is nearer than \<open>n\<close>, and jumps to \<open>e\<close> whenever the
  step would have stayed within the range.
\<close>

lemma safe_advance_random_access_overshoots:
  "e - b < int n \<Longrightarrow> e < safe_advance random_access_iterator_tag b e n"
  by (simp add: safe_advance_def safe_advance_dispatch_random_access_def)

lemma safe_advance_random_access_jumps:
  "int n \<le> e - b \<Longrightarrow> safe_advance random_access_iterator_tag b e n = e"
  by (simp add: safe_advance_def safe_advance_dispatch_random_access_def)

text \<open>
  Claim C8. The claim: over a random-access range \<open>[b, e)\<close>, \<open>safe_advance(b, e, n)\<close> is
  never past \<open>e\<close>; it is \<open>b + n\<close> when \<open>n\<close> is at most the distance from \<open>b\<close> to \<open>e\<close>,
  and \<open>e\<close> otherwise. The code on the range \<open>[0, 3)\<close>: for \<open>n = 5\<close> it returns position
  \<open>5\<close>, which is past \<open>e = 3\<close>; for \<open>n = 1\<close> it returns \<open>e = 3\<close> where \<open>b + n = 1\<close> is
  expected. The input-iterator overload gives \<open>3\<close> and \<open>1\<close> on the same arguments.
\<close>

theorem safe_advance_random_access_past_end:
  "safe_advance random_access_iterator_tag 0 3 5 = 5 \<and>
   safe_advance random_access_iterator_tag 0 3 1 = 3 \<and>
   safe_advance input_iterator_tag 0 3 5 = 3 \<and>
   safe_advance input_iterator_tag 0 3 1 = 1"
  by (simp add: safe_advance_def safe_advance_dispatch_random_access_def
      safe_advance_dispatch_input_spec)

section \<open>Properties of StaticInstance\<close>

lemma fold_max_ge: "a \<le> fold max h (a::nat)"
  by (induction h arbitrary: a) (auto intro: order_trans [OF max.cobounded2])

lemma fold_max_upper: "x \<in> set h \<Longrightarrow> x \<le> fold max h (a::nat)"
proof (induction h arbitrary: a)
  case Nil
  then show ?case by simp
next
  case (Cons y ys)
  show ?case
  proof (cases "x = y")
    case True
    have "y \<le> max y a" by simp
    also have "\<dots> \<le> fold max ys (max y a)" by (rule fold_max_ge)
    finally show ?thesis using True by simp
  next
    case False
    with Cons show ?thesis by simp
  qed
qed

lemma new_T_fresh: "new_T h = (p, h') \<Longrightarrow> p \<noteq> 0 \<and> p \<notin> set h \<and> h' = p # h"
  using fold_max_upper [of p h 0] by (auto simp: new_T_def Let_def)

lemma lock_free: "lock_word s = 0 \<Longrightarrow> lock s = Some (s\<lparr>lock_word := 1\<rparr>)"
  by (subst lock.simps) simp

lemma get_set: "V s \<noteq> 0 \<Longrightarrow> get (s, h) = Some (V s, s, h)"
  by (simp add: get_def)

lemma get_unset:
  "V s = 0 \<Longrightarrow> lock_word s = 0 \<Longrightarrow>
   get (s, h) = Some (fst (new_T h), s\<lparr>V := fst (new_T h)\<rparr>, snd (new_T h))"
  by (simp add: get_def lock_free unlock_def split: prod.splits)

lemma get_calls_set: "V s \<noteq> 0 \<Longrightarrow> get_calls k (s, h) = Some (replicate k (V s), s, h)"
  by (induction k) (simp_all add: get_set)

text \<open>
  Claim C10. For a \<open>StaticInstance\<close> whose lock is free, any number \<open>k + 1\<close> of
  \<open>get()\<close> calls made one after the other all return, and all return one and the same
  pointer \<open>p\<close>, which is not null and is what \<open>V\<close> holds afterwards. If \<open>V\<close> was null
  before the first call, exactly one object has been constructed (the free store grew
  by the one new address \<open>p\<close>); if \<open>V\<close> was set, nothing was constructed and \<open>p\<close> is
  the old \<open>V\<close>. So the object is allocated at most once and no call returns null.
\<close>

theorem get_allocates_once:
  assumes "lock_word s = 0"
  shows "\<exists>p s' h'. get_calls (Suc k) (s, h) = Some (replicate (Suc k) p, s', h') \<and>
           p \<noteq> 0 \<and> V s' = p \<and> lock_word s' = 0 \<and>
           (if V s = 0 then h' = p # h \<and> p \<notin> set h else h' = h \<and> p = V s)"
proof (cases "V s = 0")
  case True
  obtain p h' where n: "new_T h = (p, h')" by (cases "new_T h")
  from new_T_fresh [OF n] have f: "p \<noteq> 0" "p \<notin> set h" "h' = p # h" by auto
  have g: "get (s, h) = Some (p, s\<lparr>V := p\<rparr>, h')"
    using get_unset [OF True assms, of h] n by simp
  have "get_calls k (s\<lparr>V := p\<rparr>, h') = Some (replicate k p, s\<lparr>V := p\<rparr>, h')"
    using get_calls_set [of "s\<lparr>V := p\<rparr>" k h'] f by simp
  with g f True assms show ?thesis by simp
next
  case False
  then show ?thesis using assms get_calls_set [of s "Suc k" h] by simp
qed

theorem get_allocates_once_witness:
  "lock_word StaticInstance_zero = 0 \<and>
   (\<exists>p s' h'. get_calls (Suc 2) (StaticInstance_zero, [7, 3]) = Some (replicate (Suc 2) p, s', h') \<and>
           p \<noteq> 0 \<and> V s' = p \<and> lock_word s' = 0 \<and> h' = p # [7, 3] \<and> p \<notin> set [7, 3])"
  using get_allocates_once [of StaticInstance_zero 2 "[7, 3]"]
  by (simp add: StaticInstance_zero_def)

section \<open>Properties of TerminationDetection\<close>

lemma initializeThread_nonzero: "tid \<noteq> 0 \<Longrightarrow> initializeThread tid td = td"
  by (simp add: initializeThread_def)

lemma initializeThread_idem: "initializeThread 0 (initializeThread 0 td) = initializeThread 0 td"
  by (cases "data td") (simp_all add: initializeThread_def)

lemma initializeThreads_closed:
  "initializeThreads tids td = (if 0 \<in> set tids then initializeThread 0 td else td)"
proof (induction tids arbitrary: td)
  case Nil
  then show ?case by (simp add: initializeThreads_def)
next
  case (Cons t ts)
  have "initializeThreads (t # ts) td = initializeThreads ts (initializeThread t td)"
    by (simp add: initializeThreads_def)
  then show ?case
    using Cons [of "initializeThread t td"]
    by (cases "t = 0") (auto simp: initializeThread_nonzero initializeThread_idem)
qed

text \<open>
  Claim C7. After the construction for \<open>n\<close> workers and \<open>initializeThread\<close> run by every
  worker (in any order \<open>tids\<close> that covers the ids below \<open>n\<close>) and before any other
  operation, there is one token holder per worker; worker 0 and only worker 0 has
  \<open>hasToken\<close> and \<open>tokenIsBlack\<close> set, and \<open>processIsBlack\<close> is set for every worker.
\<close>

theorem initial_token_state:
  assumes "set tids = {..<n}"
  shows "length (data (initializeThreads tids (TerminationDetection_ctor n gt lw))) = n \<and>
         (\<forall>tid<n.
            hasToken (data (initializeThreads tids (TerminationDetection_ctor n gt lw)) ! tid) = (tid = 0) \<and>
            tokenIsBlack (data (initializeThreads tids (TerminationDetection_ctor n gt lw)) ! tid) = (tid = 0) \<and>
            processIsBlack (data (initializeThreads tids (TerminationDetection_ctor n gt lw)) ! tid))"
proof (cases "n = 0")
  case True
  then show ?thesis using assms
    by (simp add: initializeThreads_closed TerminationDetection_ctor_def)
next
  case False
  then have "0 \<in> set tids" using assms by auto
  then show ?thesis using False
    by (auto simp: initializeThreads_closed initializeThread_def TerminationDetection_ctor_def
        TokenHolder_ctor_def nth_list_update)
qed

theorem initial_token_state_witness:
  "set [2, 0, 1] = {..<(3::nat)} \<and>
   map hasToken (data (initializeThreads [2, 0, 1] (TerminationDetection_ctor 3 False False))) = [True, False, False] \<and>
   map tokenIsBlack (data (initializeThreads [2, 0, 1] (TerminationDetection_ctor 3 False False))) = [True, False, False] \<and>
   map processIsBlack (data (initializeThreads [2, 0, 1] (TerminationDetection_ctor 3 False False))) = [True, True, True]"
proof -
  have h: "set [2, 0, 1] = {..<(3::nat)}" by auto
  show ?thesis
    using h initial_token_state [OF h, of False False]
    by (simp add: list_eq_iff_nth_eq less_Suc_eq numeral_3_eq_3 all_conj_distrib)
qed


section \<open>Properties of FileGraph\<close>

lemma parse_fields:
  assumes "parse m g = Inr g'"
  shows "outIdx g' = 32" "outs g' = 32 + 8 * unat (numNodes g')"
    "edgeData g' = outs g' + 4 * unat (numEdges g') + (if unat (numEdges g') mod 2 \<noteq> 0 then 4 else 0)"
    "32 \<le> length m"
    "load64 m 0 = Inr 1" "load64 m 8 = Inr (sizeEdgeTy g')"
    "load64 m 16 = Inr (numNodes g')" "load64 m 24 = Inr (numEdges g')"
    "masterMapping g' = masterMapping g" "masterLength g' = masterLength g" "masterFD g' = masterFD g"
  using assms
  by (auto simp: parse_def Let_def load64_def split: sum.splits if_splits)

lemma valid_layout:
  assumes "valid_FileGraph g"
  shows "outIdx g = 32" "outs g = 32 + 8 * unat (numNodes g)"
    "outs g + 4 * unat (numEdges g) \<le> edgeData g"
    "edgeData g \<le> masterLength g" "masterLength g \<le> length (masterMapping g)"
proof -
  from assms have p: "parse (masterMapping g) g = Inr g"
    and l: "masterLength g \<le> length (masterMapping g)"
    and e: "edgeData g + unat (numEdges g) * unat (sizeEdgeTy g) \<le> masterLength g"
    by (simp_all add: valid_FileGraph_def)
  show "outIdx g = 32" by (rule parse_fields(1) [OF p])
  show "outs g = 32 + 8 * unat (numNodes g)" by (rule parse_fields(2) [OF p])
  show "outs g + 4 * unat (numEdges g) \<le> edgeData g" using parse_fields(3) [OF p] by simp
  show "edgeData g \<le> masterLength g" using e by simp
  show "masterLength g \<le> length (masterMapping g)" by (rule l)
qed

lemma word_of_nat_not_max:
  assumes "b < 2 ^ 64 - 1"
  shows "(word_of_nat b :: 64 word) \<noteq> NOT 0"
proof
  assume "(word_of_nat b :: 64 word) = NOT 0"
  then have "unat (NOT 0 :: 64 word) = b"
    using assms by (intro of_nat_inverse) auto
  moreover have "unat (NOT 0 :: 64 word) = 2 ^ 64 - 1"
    by (simp add: unsigned_minus_1_eq_mask mask_eq_exp_minus_1)
  ultimately show False using assms by simp
qed

lemma load64_offsets:
  assumes "valid_FileGraph g" "i < unat (numNodes g)"
  shows "load64 (masterMapping g) (outIdx g + 8 * i) = Inr (offsets g ! i)"
  using valid_layout [OF assms(1)] assms(2)
  by (simp add: load64_def offsets_def)

lemma load32_dests:
  assumes "valid_FileGraph g" "i < unat (numEdges g)"
  shows "load32 (masterMapping g) (outs g + 4 * i) = Inr (dests g ! i)"
  using valid_layout [OF assms(1)] assms(2)
  by (simp add: load32_def dests_def)

lemma offsets_mono:
  assumes "valid_FileGraph g" "i \<le> j" "j < unat (numNodes g)"
  shows "offsets g ! i \<le> offsets g ! j"
proof -
  have "sorted (offsets g)" using assms(1) by (simp add: valid_FileGraph_def)
  moreover have "j < length (offsets g)" using assms(3) by (simp add: offsets_def)
  ultimately show ?thesis using assms(2) by (simp add: sorted_nth_mono)
qed

lemma offsets_le_numEdges:
  assumes "valid_FileGraph g" "j < unat (numNodes g)"
  shows "offsets g ! j \<le> numEdges g"
proof -
  have len: "length (offsets g) = unat (numNodes g)" by (simp add: offsets_def)
  then have ne: "offsets g \<noteq> []" using assms(2) by auto
  then have "last (offsets g) = numEdges g"
    using assms(1) by (simp add: valid_FileGraph_def)
  moreover have "last (offsets g) = offsets g ! (unat (numNodes g) - 1)"
    using ne len by (simp add: last_conv_nth)
  moreover have "offsets g ! j \<le> offsets g ! (unat (numNodes g) - 1)"
    using assms by (intro offsets_mono) auto
  ultimately show ?thesis by simp
qed

lemma edge_begin_valid:
  assumes "valid_FileGraph g" "unat N < unat (numNodes g)"
  shows "edge_begin g N = Inr (if N = 0 then 0 else offsets g ! (unat N - 1))"
proof (cases "N = 0")
  case True
  then show ?thesis by (simp add: edge_begin_def)
next
  case False
  then have "unat (N - 1) = unat N - 1" by (simp add: unat_minus_one)
  moreover have "unat N - 1 < unat (numNodes g)" using assms(2) by simp
  ultimately show ?thesis using False load64_offsets [OF assms(1), of "unat N - 1"]
    by (simp add: edge_begin_def)
qed

lemma edge_end_valid:
  assumes "valid_FileGraph g" "unat N < unat (numNodes g)"
  shows "edge_end g N = Inr (offsets g ! unat N)"
  using load64_offsets [OF assms] by (simp add: edge_end_def)

lemma edge_range_bounds:
  assumes "valid_FileGraph g" "unat N < unat (numNodes g)"
  shows "unat (if N = 0 then 0 else offsets g ! (unat N - 1)) \<le> unat (offsets g ! unat N)"
    and "unat (offsets g ! unat N) \<le> unat (numEdges g)"
proof -
  show "unat (offsets g ! unat N) \<le> unat (numEdges g)"
    using offsets_le_numEdges [OF assms] by (simp add: word_le_nat_alt)
  show "unat (if N = 0 then 0 else offsets g ! (unat N - 1)) \<le> unat (offsets g ! unat N)"
  proof (cases "N = 0")
    case True then show ?thesis by simp
  next
    case False
    have "offsets g ! (unat N - 1) \<le> offsets g ! unat N"
      using assms by (intro offsets_mono) auto
    then show ?thesis using False by (simp add: word_le_nat_alt)
  qed
qed

lemma getEdgeIdx_loop_valid:
  assumes "valid_FileGraph g" "e \<le> unat (numEdges g)" "b \<le> e"
  shows "\<exists>r. getEdgeIdx_loop (masterMapping g) (outs g) dst b e = Inr r \<and>
             (r \<noteq> NOT 0 \<longleftrightarrow> (\<exists>i. b \<le> i \<and> i < e \<and> dests g ! i = dst))"
  using assms(3)
proof (induction "e - b" arbitrary: b)
  case 0
  then have "b = e" by simp
  then show ?case by (subst getEdgeIdx_loop.simps) auto
next
  case (Suc k)
  then have lt: "b < e" and k: "k = e - (b + 1)" and le: "b + 1 \<le> e" by auto
  have rd: "load32 (masterMapping g) (outs g + 4 * b) = Inr (dests g ! b)"
    using load32_dests [OF assms(1), of b] lt assms(2) by simp
  show ?case
  proof (cases "dests g ! b = dst")
    case True
    have "unat (numEdges g) < 2 ^ 64" using unsigned_less [of "numEdges g"] by simp
    then have "b < 2 ^ 64 - 1" using lt assms(2) by simp
    then have "(word_of_nat b :: 64 word) \<noteq> NOT 0" by (rule word_of_nat_not_max)
    then show ?thesis using rd True lt
      by (subst getEdgeIdx_loop.simps) auto
  next
    case False
    from Suc.hyps(1) [OF k le] obtain r where
      r: "getEdgeIdx_loop (masterMapping g) (outs g) dst (b + 1) e = Inr r"
         "r \<noteq> NOT 0 \<longleftrightarrow> (\<exists>i. b + 1 \<le> i \<and> i < e \<and> dests g ! i = dst)" by blast
    have "(\<exists>i. b + 1 \<le> i \<and> i < e \<and> dests g ! i = dst) \<longleftrightarrow> (\<exists>i. b \<le> i \<and> i < e \<and> dests g ! i = dst)"
      using False by (metis Suc_eq_plus1 Suc_leI le_neq_implies_less Suc_leD)
    then show ?thesis using rd False lt r
      by (subst getEdgeIdx_loop.simps) auto
  qed
qed

lemma edge_dsts_loop_valid:
  assumes "valid_FileGraph g" "e \<le> unat (numEdges g)" "b \<le> e"
  shows "edge_dsts_loop (masterMapping g) (outs g) b e = Inr (map (\<lambda>i. dests g ! i) [b..<e])"
  using assms(3)
proof (induction "e - b" arbitrary: b)
  case 0
  then have "b = e" by simp
  then show ?case by (subst edge_dsts_loop.simps) simp
next
  case (Suc k)
  then have lt: "b < e" and k: "k = e - (b + 1)" and le: "b + 1 \<le> e" by auto
  have rd: "load32 (masterMapping g) (outs g + 4 * b) = Inr (dests g ! b)"
    using load32_dests [OF assms(1), of b] lt assms(2) by simp
  have "edge_dsts_loop (masterMapping g) (outs g) (b + 1) e = Inr (map (\<lambda>i. dests g ! i) [b + 1..<e])"
    by (rule Suc.hyps(1) [OF k le])
  then show ?case using rd lt
    by (subst edge_dsts_loop.simps) (simp add: upt_conv_Cons)
qed

lemma edge_dsts_valid:
  assumes "valid_FileGraph g" "unat N < unat (numNodes g)"
  shows "edge_dsts g N =
           Inr (map (\<lambda>i. dests g ! i)
                  [unat (if N = 0 then 0 else offsets g ! (unat N - 1))..<unat (offsets g ! unat N)])"
  using edge_range_bounds [OF assms] edge_dsts_loop_valid [OF assms(1)]
  by (simp add: edge_dsts_def edge_begin_valid [OF assms] edge_end_valid [OF assms])

lemma hasNeighbor_valid:
  assumes "valid_FileGraph g" "unat N < unat (numNodes g)"
  shows "hasNeighbor g N dst =
           Inr (\<exists>i. unat (if N = 0 then 0 else offsets g ! (unat N - 1)) \<le> i \<and>
                    i < unat (offsets g ! unat N) \<and> dests g ! i = dst)"
proof -
  let ?b = "unat (if N = 0 then 0 else offsets g ! (unat N - 1))"
  let ?e = "unat (offsets g ! unat N)"
  have b: "raw_neighbor_begin g N = Inr (if N = 0 then 0 else offsets g ! (unat N - 1))"
    using edge_begin_valid [OF assms] by (simp add: raw_neighbor_begin_def edge_begin_def)
  have e: "raw_neighbor_end g N = Inr (offsets g ! unat N)"
    using edge_end_valid [OF assms] by (simp add: raw_neighbor_end_def edge_end_def)
  from getEdgeIdx_loop_valid [OF assms(1) edge_range_bounds(2) [OF assms] edge_range_bounds(1) [OF assms], of dst]
  obtain r where r: "getEdgeIdx_loop (masterMapping g) (outs g) dst ?b ?e = Inr r"
    "r \<noteq> NOT 0 \<longleftrightarrow> (\<exists>i. ?b \<le> i \<and> i < ?e \<and> dests g ! i = dst)" by blast
  show ?thesis using r by (simp add: hasNeighbor_def getEdgeIdx_def b e)
qed

lemma example_reload:
  "(case structureFromMem FileGraph_ctor example_image 80 True of Inl f \<Rightarrow> Inl f
    | Inr g \<Rightarrow> (case structureToFile g Map.empty ''g.gr'' 3 80 of Inl f \<Rightarrow> Inl f
                | Inr fs \<Rightarrow> structureFromFile FileGraph_ctor fs ''g.gr'')) = Inr example_graph"
  by (simp add: example_image_def structureFromMem_def structureToFile_def sys_open_def
      sys_write_def structureFromFile_def parse_def load64_def le_decode_def Let_def
      FileGraph_ctor_def example_graph_def)

lemma example_observations:
  "size_FileGraph example_graph = 4 \<and> sizeEdges example_graph = 4 \<and>
   edge_dsts example_graph 0 = Inr [1, 2] \<and>
   hasNeighbor example_graph 2 3 = Inr True \<and> hasNeighbor example_graph 3 0 = Inr False"
  by (simp add: example_graph_def example_image_def size_FileGraph_def sizeEdges_def
      edge_dsts_def edge_begin_def edge_end_def hasNeighbor_def getEdgeIdx_def
      raw_neighbor_begin_def raw_neighbor_end_def load64_def load32_def le_decode_def)

lemma example_graph_valid: "valid_FileGraph example_graph"
  by (simp add: valid_FileGraph_def example_graph_def example_image_def parse_def offsets_def
      dests_def load64_def le_decode_def upt_rec)

text \<open>
  Claim C6. In a valid graph the out-edges of a node \<open>N\<close> below \<open>numNodes\<close> are the
  indices from \<open>offset[N-1]\<close> (0 for node 0) up to, not including, \<open>offset[N]\<close>:
  \<open>edge_begin\<close> and \<open>edge_end\<close> return these two values, and \<open>hasNeighbor(N, dst)\<close> is
  true exactly when some index of that range has the destination \<open>dst\<close>. The graph with
  the 4 nodes and the edges (0,1), (0,2), (1,2), (2,3), loaded, written (\<open>open\<close>
  returns descriptor 3, \<open>write\<close> stores all 80 bytes) and loaded again,
  has \<open>size() = 4\<close>, \<open>sizeEdges() = 4\<close>, the destinations 1, 2 of node 0 in this order,
  the edge (2,3) and no edge (3,0).
\<close>

theorem FileGraph_out_edge_range:
  assumes "valid_FileGraph g" and "unat N < unat (numNodes g)"
  shows "edge_begin g N = Inr (if N = 0 then 0 else offsets g ! (unat N - 1)) \<and>
         edge_end g N = Inr (offsets g ! unat N) \<and>
         hasNeighbor g N dst =
           Inr (\<exists>i. unat (if N = 0 then 0 else offsets g ! (unat N - 1)) \<le> i \<and>
                    i < unat (offsets g ! unat N) \<and> dests g ! i = dst) \<and>
         (case structureFromMem FileGraph_ctor example_image 80 True of Inl f \<Rightarrow> Inl f
          | Inr g \<Rightarrow> (case structureToFile g Map.empty ''g.gr'' 3 80 of Inl f \<Rightarrow> Inl f
                | Inr fs \<Rightarrow> structureFromFile FileGraph_ctor fs ''g.gr'')) = Inr example_graph \<and>
         size_FileGraph example_graph = 4 \<and> sizeEdges example_graph = 4 \<and>
         edge_dsts example_graph 0 = Inr [1, 2] \<and>
         hasNeighbor example_graph 2 3 = Inr True \<and> hasNeighbor example_graph 3 0 = Inr False"
  using edge_begin_valid [OF assms] edge_end_valid [OF assms] hasNeighbor_valid [OF assms, of dst]
    example_reload example_observations
  by simp

theorem FileGraph_out_edge_range_witness:
  "valid_FileGraph example_graph \<and> unat (1 :: 32 word) < unat (numNodes example_graph) \<and>
   edge_begin example_graph 1 = Inr 2 \<and> edge_end example_graph 1 = Inr 3 \<and>
   hasNeighbor example_graph 1 2 = Inr True"
proof -
  have v: "valid_FileGraph example_graph" by (rule example_graph_valid)
  have n: "unat (1 :: 32 word) < unat (numNodes example_graph)" by (simp add: example_graph_def)
  have o: "offsets example_graph = [2, 3, 4, 4]" "dests example_graph = [1, 2, 2, 3]"
    by (simp_all add: offsets_def dests_def example_graph_def example_image_def le_decode_def upt_rec)
  have "\<exists>i::nat. 2 \<le> i \<and> i < 3 \<and> [1, 2, 2, 3 :: 32 word] ! i = 2"
    by (rule exI [of _ 2]) simp
  then show ?thesis
    using v n FileGraph_out_edge_range [OF v n, of 2] by (simp add: o)
qed





















section \<open>Properties of the insert bag\<close>

lemma newHeader_fields:
  "dbegin (newHeader L m) = first_slot L" "dend (newHeader L m) = first_slot L"
  "dlast (newHeader L m) = pageSize L div sizeof_T L" "slots (newHeader L m) = Map.empty"
  "page (newHeader L m) = m"
  by (simp_all add: newHeader_def first_slot_def Let_def)

lemma newHeader_ok:
  assumes "layout_ok L"
  shows "segment_ok L (newHeader L m)"
  using assms by (simp add: segment_ok_def newHeader_fields layout_ok_def)

lemma linked_ok_construct:
  assumes "dbegin h \<le> dend h" "dend h < dlast h" "dlast h = pageSize L div sizeof_T L"
    "list_all (\<lambda>i. slots h i \<noteq> None) [dbegin h..<dend h]"
  shows "linked_ok L (h\<lparr>slots := (slots h)(dend h \<mapsto> val), dend := dend h + 1\<rparr>)"
  using assms by (auto simp: linked_ok_def segment_ok_def list_all_iff)

lemma seg_elems_construct:
  assumes "dbegin h \<le> dend h"
  shows "seg_elems (h\<lparr>slots := (slots h)(dend h \<mapsto> val), dend := dend h + 1\<rparr>) = seg_elems h @ [val]"
  using assms by (simp add: seg_elems_def)

lemma bag_elems_update:
  assumes "tid < length hs"
  shows "mset (concat (map (\<lambda>H. concat (map seg_elems H)) (hs[tid := H']))) + mset (concat (map seg_elems (hs ! tid)))
       = mset (concat (map (\<lambda>H. concat (map seg_elems H)) hs)) + mset (concat (map seg_elems H'))"
  using assms
proof (induction hs arbitrary: tid)
  case Nil then show ?case by simp
next
  case (Cons a hs)
  then show ?case by (cases tid) (auto simp: ac_simps)
qed

lemma bag_inv_update:
  assumes "bag_inv L s" "list_all (linked_ok L) H'"
  shows "bag_inv L (s\<lparr>heads := (heads s)[tid := H'], pages := ps\<rparr>)"
  using assms set_update_subset_insert [of "heads s" tid H']
  by (auto simp: bag_inv_def list_all_iff)

lemma push_ok:
  assumes L: "layout_ok L" and inv: "bag_inv L s" and tid: "tid < length (heads s)"
  shows "\<exists>s'. push L tid val s = Inr s' \<and> bag_inv L s' \<and> length (heads s') = length (heads s) \<and>
           mset (bag_elems s') = mset (bag_elems s) + {#val#} \<and>
           (\<forall>t. t \<noteq> tid \<longrightarrow> heads s' ! t = heads s ! t) \<and>
           heads s' ! tid \<noteq> [] \<and>
           tl (heads s' ! tid) =
             (if heads s ! tid = [] \<or> dend (hd (heads s ! tid)) = dlast (hd (heads s ! tid))
              then heads s ! tid else tl (heads s ! tid)) \<and>
           dend (hd (heads s' ! tid)) =
             (if heads s ! tid = [] \<or> dend (hd (heads s ! tid)) = dlast (hd (heads s ! tid))
              then first_slot L else dend (hd (heads s ! tid))) + 1 \<and>
           seg_elems (hd (heads s' ! tid)) =
             (if heads s ! tid = [] \<or> dend (hd (heads s ! tid)) = dlast (hd (heads s ! tid))
              then [] else seg_elems (hd (heads s ! tid))) @ [val]"
proof -
  let ?H = "heads s ! tid"
  have Hok: "list_all (linked_ok L) ?H"
    using inv tid by (simp add: bag_inv_def list_all_length)
  obtain m ps' where al: "pageAlloc (pages s) = (m, ps')" by (cases "pageAlloc (pages s)")
  show ?thesis
  proof (cases "?H = [] \<or> dend (hd ?H) = dlast (hd ?H)")
    case True
    let ?h = "newHeader L m :: 'a header"
    let ?h' = "?h\<lparr>slots := (slots ?h)(dend ?h \<mapsto> val), dend := dend ?h + 1\<rparr>"
    let ?s' = "s\<lparr>heads := (heads s)[tid := ?h' # ?H], pages := ps'\<rparr>"
    have ip: "in_page L (dend ?h)" using L by (simp add: in_page_def newHeader_fields layout_ok_def)
    have p: "push L tid val s = Inr ?s'"
      using True tid al ip by (simp add: push_def Let_def)
    have lk: "linked_ok L ?h'"
      using L by (intro linked_ok_construct) (simp_all add: newHeader_fields layout_ok_def)
    have inv': "bag_inv L ?s'"
      using lk Hok by (intro bag_inv_update [OF inv]) simp
    have se: "seg_elems ?h' = [val]"
      using seg_elems_construct [of ?h val] by (simp add: newHeader_fields seg_elems_def)
    have "mset (bag_elems ?s') + mset (concat (map seg_elems ?H))
        = mset (bag_elems s) + mset (concat (map seg_elems (?h' # ?H)))"
      using bag_elems_update [OF tid, of "?h' # ?H"] by (simp add: bag_elems_def)
    then have ms: "mset (bag_elems ?s') = mset (bag_elems s) + {#val#}"
      using se by simp
    show ?thesis using p inv' ms True tid se
      by (intro exI [of _ ?s']) (simp add: newHeader_fields)
  next
    case False
    then obtain h rest where H: "?H = h # rest" and nf: "dend h \<noteq> dlast h"
      by (cases ?H) auto
    have hk: "linked_ok L h" and rk: "list_all (linked_ok L) rest" using Hok H by simp_all
    let ?h' = "h\<lparr>slots := (slots h)(dend h \<mapsto> val), dend := dend h + 1\<rparr>"
    let ?s' = "s\<lparr>heads := (heads s)[tid := ?h' # rest], pages := pages s\<rparr>"
    have lt: "dend h < dlast h" "dbegin h \<le> dend h" "dlast h = pageSize L div sizeof_T L"
      "list_all (\<lambda>i. slots h i \<noteq> None) [dbegin h..<dend h]"
      using hk nf by (auto simp: linked_ok_def segment_ok_def)
    have ip: "in_page L (dend h)" using lt by (simp add: in_page_def)
    have p: "push L tid val s = Inr ?s'"
      using False tid H ip by (simp add: push_def Let_def)
    have lk: "linked_ok L ?h'" using lt by (intro linked_ok_construct)
    have inv': "bag_inv L ?s'"
      using lk rk by (intro bag_inv_update [OF inv]) simp
    have se: "seg_elems ?h' = seg_elems h @ [val]" using lt by (intro seg_elems_construct)
    have "mset (bag_elems ?s') + mset (concat (map seg_elems ?H))
        = mset (bag_elems s) + mset (concat (map seg_elems (?h' # rest)))"
      using bag_elems_update [OF tid, of "?h' # rest"] by (simp add: bag_elems_def)
    then have ms: "mset (bag_elems ?s') = mset (bag_elems s) + {#val#}"
      using se by (simp add: H)
    show ?thesis using p inv' ms False tid se H
      by (intro exI [of _ ?s']) simp
  qed
qed

lemma bag_inv_ctor: "bag_inv L (insert_bag_ctor n ps)"
  by (simp add: bag_inv_def insert_bag_ctor_def list_all_length)

lemma bag_elems_ctor: "bag_elems (insert_bag_ctor n ps) = []"
  by (simp add: bag_elems_def insert_bag_ctor_def)

lemma pushes_ok:
  assumes "layout_ok L" "bag_inv L s" "list_all (\<lambda>op. fst op < length (heads s)) ops"
  shows "\<exists>s'. pushes L ops s = Inr s' \<and> bag_inv L s' \<and> length (heads s') = length (heads s) \<and>
           mset (bag_elems s') = mset (bag_elems s) + mset (map snd ops)"
  using assms(2,3)
proof (induction ops arbitrary: s)
  case Nil then show ?case by simp
next
  case (Cons op ops)
  obtain tid val where op: "op = (tid, val)" by (cases op)
  have tid: "tid < length (heads s)" using Cons.prems(2) op by simp
  from push_ok [OF assms(1) Cons.prems(1) tid, of val] obtain s1 where
    s1: "push L tid val s = Inr s1" "bag_inv L s1" "length (heads s1) = length (heads s)"
        "mset (bag_elems s1) = mset (bag_elems s) + {#val#}" by blast
  have "list_all (\<lambda>op. fst op < length (heads s1)) ops" using Cons.prems(2) s1(3) by simp
  from Cons.IH [OF s1(2) this] obtain s' where
    s': "pushes L ops s1 = Inr s'" "bag_inv L s'" "length (heads s') = length (heads s1)"
        "mset (bag_elems s') = mset (bag_elems s1) + mset (map snd ops)" by blast
  show ?case using s1 s' op by (intro exI [of _ s']) simp
qed

lemma init_thread_simps:
  "init_thread hs it =
     (if it_thr it < length hs \<and> hs ! it_thr it \<noteq> []
      then (True, it\<lparr>it_p := hs ! it_thr it, it_v := Some (dbegin (hd (hs ! it_thr it)))\<rparr>)
      else (False, it\<lparr>it_p := [], it_v := None\<rparr>))"
  by (simp add: init_thread_def Let_def)

lemma iterator_ctor_alt:
  "iterator_ctor hs t =
     (if fst (init_thread hs \<lparr>it_thr = t, it_p = [], it_v = None\<rparr>)
      then snd (init_thread hs \<lparr>it_thr = t, it_p = [], it_v = None\<rparr>)
      else advance_thread hs (snd (init_thread hs \<lparr>it_thr = t, it_p = [], it_v = None\<rparr>)))"
  by (cases "init_thread hs \<lparr>it_thr = t, it_p = [], it_v = None\<rparr>")
     (auto simp: iterator_ctor_def)

lemma iterator_ctor_end:
  "iterator_ctor hs (length hs) = \<lparr>it_thr = length hs, it_p = [], it_v = None\<rparr>"
  by (simp add: iterator_ctor_alt init_thread_simps advance_thread.simps)

lemma iterator_ctor_nonempty:
  assumes "t < length hs" "hs ! t \<noteq> []"
  shows "iterator_ctor hs t = \<lparr>it_thr = t, it_p = hs ! t, it_v = Some (dbegin (hd (hs ! t)))\<rparr>"
  using assms by (simp add: iterator_ctor_alt init_thread_simps)

lemma advance_thread_ctor:
  assumes "it_thr it < length hs"
  shows "advance_thread hs (it :: 'a iterator) = iterator_ctor hs (it_thr it + 1)"
proof -
  have e: "init_thread hs (it\<lparr>it_thr := Suc (it_thr it)\<rparr>)
         = init_thread hs \<lparr>it_thr = Suc (it_thr it), it_p = [], it_v = None\<rparr>"
    by (simp add: init_thread_simps)
  show ?thesis
    using assms
    by (subst advance_thread.simps) (simp add: iterator_ctor_alt e)
qed

lemma iterator_ctor_empty:
  assumes "t < length hs" "hs ! t = []"
  shows "iterator_ctor hs t = iterator_ctor hs (t + 1)"
proof -
  have "iterator_ctor hs t = advance_thread hs \<lparr>it_thr = t, it_p = [], it_v = None\<rparr>"
    using assms by (simp add: iterator_ctor_alt init_thread_simps)
  then show ?thesis using advance_thread_ctor [of "\<lparr>it_thr = t, it_p = [], it_v = None\<rparr>" hs] assms
    by simp
qed

lemma iterate_segment:
  assumes t: "t < length (heads s)"
    and ok: "list_all (linked_ok L) (h # rest)"
    and i: "dbegin h \<le> i" "i < dend h"
  shows "iterate L s \<lparr>it_thr = t, it_p = h # rest, it_v = Some i\<rparr> acc =
         iterate L s (iterator_ctor (heads s) (t + 1))
           (acc @ map (\<lambda>j. the (slots h j)) [i..<dend h] @ concat (map seg_elems rest))"
  using ok i
proof (induction rest arbitrary: h i acc)
  case Nil
  from Nil.prems(2,3) show ?case
  proof (induction "dend h - i" arbitrary: i acc)
    case 0 then show ?case by simp
  next
    case (Suc k)
    have hk: "linked_ok L h" using Nil.prems(1) by simp
    then have sl: "slots h i \<noteq> None" and ip: "in_page L i"
      using Suc.prems by (auto simp: linked_ok_def segment_ok_def list_all_iff in_page_def)
    then obtain x where x: "slots h i = Some x" by auto
    have ne: "\<not> iterator_eq \<lparr>it_thr = t, it_p = [h], it_v = Some i\<rparr> (bag_end s)"
      using t by (simp add: iterator_eq_def bag_end_def iterator_ctor_end)
    have d: "deref L \<lparr>it_thr = t, it_p = [h], it_v = Some i\<rparr> = Inr x"
      using x ip by (simp add: deref_def)
    show ?case
    proof (cases "Suc i = dend h")
      case True
      have a: "advance (heads s) \<lparr>it_thr = t, it_p = [h], it_v = Some i\<rparr> = iterator_ctor (heads s) (t + 1)"
        using True t advance_thread_ctor [of "\<lparr>it_thr = t, it_p = [], it_v = None\<rparr>" "heads s"]
        by (simp add: advance_def advance_local_def advance_chunk_def)
      have "[i..<dend h] = [i]" using True by (simp add: upt_conv_Cons)
      then show ?thesis using ne d a x
        by (subst iterate.simps) simp
    next
      case False
      have a: "advance (heads s) \<lparr>it_thr = t, it_p = [h], it_v = Some i\<rparr> = \<lparr>it_thr = t, it_p = [h], it_v = Some (Suc i)\<rparr>"
        using False by (simp add: advance_def advance_local_def)
      have k: "k = dend h - Suc i" using Suc.hyps(2) by simp
      have lt: "Suc i < dend h" using False Suc.prems by simp
      have "iterate L s \<lparr>it_thr = t, it_p = [h], it_v = Some (Suc i)\<rparr> (acc @ [x]) =
            iterate L s (iterator_ctor (heads s) (t + 1))
              ((acc @ [x]) @ map (\<lambda>j. the (slots h j)) [Suc i..<dend h] @ concat (map seg_elems []))"
        using Suc.hyps(1) [OF k _ lt] Suc.prems by simp
      moreover have "[i..<dend h] = i # [Suc i..<dend h]" using Suc.prems by (simp add: upt_conv_Cons)
      ultimately show ?thesis using ne d a x
        by (subst iterate.simps) simp
    qed
  qed
next
  case (Cons h2 rest)
  have ok2: "list_all (linked_ok L) (h2 # rest)" using Cons.prems(1) by simp
  have h2: "dbegin h2 < dend h2" using Cons.prems(1) by (simp add: linked_ok_def)
  have nxt: "iterate L s \<lparr>it_thr = t, it_p = h2 # rest, it_v = Some (dbegin h2)\<rparr> acc' =
         iterate L s (iterator_ctor (heads s) (t + 1))
           (acc' @ seg_elems h2 @ concat (map seg_elems rest))" for acc'
    using Cons.IH [OF ok2 _ h2, of acc'] by (simp add: seg_elems_def [abs_def])
  from Cons.prems(2,3) show ?case
  proof (induction "dend h - i" arbitrary: i acc)
    case 0 then show ?case by simp
  next
    case (Suc k)
    have hk: "linked_ok L h" using Cons.prems(1) by simp
    then have sl: "slots h i \<noteq> None" and ip: "in_page L i"
      using Suc.prems by (auto simp: linked_ok_def segment_ok_def list_all_iff in_page_def)
    then obtain x where x: "slots h i = Some x" by auto
    have ne: "\<not> iterator_eq \<lparr>it_thr = t, it_p = h # h2 # rest, it_v = Some i\<rparr> (bag_end s)"
      using t by (simp add: iterator_eq_def bag_end_def iterator_ctor_end)
    have d: "deref L \<lparr>it_thr = t, it_p = h # h2 # rest, it_v = Some i\<rparr> = Inr x"
      using x ip by (simp add: deref_def)
    show ?case
    proof (cases "Suc i = dend h")
      case True
      have a: "advance (heads s) \<lparr>it_thr = t, it_p = h # h2 # rest, it_v = Some i\<rparr>
             = \<lparr>it_thr = t, it_p = h2 # rest, it_v = Some (dbegin h2)\<rparr>"
        using True by (simp add: advance_def advance_local_def advance_chunk_def)
      have "[i..<dend h] = [i]" using True by (simp add: upt_conv_Cons)
      then show ?thesis using ne d a x nxt [of "acc @ [x]"]
        by (subst iterate.simps) simp
    next
      case False
      have a: "advance (heads s) \<lparr>it_thr = t, it_p = h # h2 # rest, it_v = Some i\<rparr>
             = \<lparr>it_thr = t, it_p = h # h2 # rest, it_v = Some (Suc i)\<rparr>"
        using False by (simp add: advance_def advance_local_def)
      have k: "k = dend h - Suc i" using Suc.hyps(2) by simp
      have lt: "Suc i < dend h" using False Suc.prems by simp
      have "iterate L s \<lparr>it_thr = t, it_p = h # h2 # rest, it_v = Some (Suc i)\<rparr> (acc @ [x]) =
            iterate L s (iterator_ctor (heads s) (t + 1))
              ((acc @ [x]) @ map (\<lambda>j. the (slots h j)) [Suc i..<dend h] @ concat (map seg_elems (h2 # rest)))"
        using Suc.hyps(1) [OF k _ lt] Suc.prems by simp
      moreover have "[i..<dend h] = i # [Suc i..<dend h]" using Suc.prems by (simp add: upt_conv_Cons)
      ultimately show ?thesis using ne d a x
        by (subst iterate.simps) simp
    qed
  qed
qed

lemma iterate_from_thread:
  assumes inv: "bag_inv L s" and t: "t \<le> length (heads s)"
  shows "iterate L s (iterator_ctor (heads s) t) acc =
         Some (Inr (acc @ concat (map (\<lambda>H. concat (map seg_elems H)) (drop t (heads s)))))"
  using t
proof (induction "length (heads s) - t" arbitrary: t acc)
  case 0
  then have "t = length (heads s)" by simp
  then show ?case
    by (subst iterate.simps) (simp add: bag_end_def iterator_eq_def)
next
  case (Suc k)
  then have lt: "t < length (heads s)" and k: "k = length (heads s) - (t + 1)"
    and le: "t + 1 \<le> length (heads s)" by auto
  have dr: "drop t (heads s) = heads s ! t # drop (t + 1) (heads s)"
    using lt by (simp add: Cons_nth_drop_Suc)
  show ?case
  proof (cases "heads s ! t")
    case Nil
    then show ?thesis
      using iterator_ctor_empty [OF lt Nil] Suc.hyps(1) [OF k le, of acc] dr by simp
  next
    case (Cons h rest)
    have ok: "list_all (linked_ok L) (h # rest)"
      using inv lt Cons by (auto simp: bag_inv_def list_all_length)
    then have b: "dbegin h < dend h" by (simp add: linked_ok_def)
    have c: "iterator_ctor (heads s) t = \<lparr>it_thr = t, it_p = h # rest, it_v = Some (dbegin h)\<rparr>"
      using iterator_ctor_nonempty [OF lt] Cons by simp
    show ?thesis
      using iterate_segment [OF lt ok _ b, of acc] Suc.hyps(1) [OF k le] dr Cons c
      by (simp add: seg_elems_def [abs_def])
  qed
qed

lemma bag_contents_ok:
  assumes "bag_inv L s"
  shows "bag_contents L s = Some (Inr (bag_elems s))"
  using iterate_from_thread [OF assms, of 0 "[]"]
  by (simp add: bag_contents_def bag_begin_def bag_elems_def)

text \<open>
  Claim C3, as the code has it. For an element type that leaves room for at least one
  element in a page behind the header (\<open>layout_ok\<close>), any sequence of pushes by
  workers of the bag, starting from the empty bag, succeeds, and iterating the bag from
  \<open>begin()\<close> to \<open>end()\<close> afterwards ends and yields exactly the multiset of the values
  pushed.
\<close>

theorem insert_bag_complete:
  assumes "layout_ok L" and "list_all (\<lambda>op. fst op < n) ops"
  shows "\<exists>s xs. pushes L ops (insert_bag_ctor n ps) = Inr s \<and>
                bag_contents L s = Some (Inr xs) \<and> mset xs = mset (map snd ops)"
proof -
  have "list_all (\<lambda>op. fst op < length (heads (insert_bag_ctor n ps :: 'a insert_bag))) ops"
    using assms(2) by (simp add: insert_bag_ctor_def)
  from pushes_ok [OF assms(1) bag_inv_ctor this] obtain s where
    s: "pushes L ops (insert_bag_ctor n ps) = Inr s" "bag_inv L s"
       "mset (bag_elems s) = mset (bag_elems (insert_bag_ctor n ps :: 'a insert_bag)) + mset (map snd ops)"
    by blast
  show ?thesis
    using s bag_contents_ok [OF s(2)] by (simp add: bag_elems_ctor)
qed

theorem insert_bag_complete_witness:
  "layout_ok small_layout \<and>
   list_all (\<lambda>op. fst op < 2) [(0 :: nat, 10 :: nat), (1, 20), (0, 30), (0, 40), (0, 50)] \<and>
   (\<exists>s xs. pushes small_layout [(0, 10), (1, 20), (0, 30), (0, 40), (0, 50)]
             (insert_bag_ctor 2 [] :: nat insert_bag) = Inr s \<and>
           bag_contents small_layout s = Some (Inr xs) \<and> mset xs = {#10, 20, 30, 40, 50#})"
proof -
  have l: "layout_ok small_layout" by (simp add: layout_ok_def small_layout_def first_slot_def)
  have t: "list_all (\<lambda>op. fst op < 2) [(0 :: nat, 10 :: nat), (1, 20), (0, 30), (0, 40), (0, 50)]" by simp
  show ?thesis
    using l t insert_bag_complete [OF l t, of "[]"] by simp
qed

text \<open>
  The claim itself (every sequence of pushes into any bag is iterated back) does not
  hold: with an element of the size of a page, or larger than a page, the first push
  links a fresh segment that has no free slot and constructs the value outside the page,
  so there is no bag to iterate.
\<close>

theorem push_of_page_sized_element_fails:
  "pushes page_sized_layout [(0, 7 :: nat)] (insert_bag_ctor 1 []) = Inl MemoryFault \<and>
   pushes oversized_layout [(0, 7 :: nat)] (insert_bag_ctor 1 []) = Inl MemoryFault"
  by (simp add: push_def pageAlloc_def newHeader_def in_page_def page_sized_layout_def
      oversized_layout_def insert_bag_ctor_def Let_def)

text \<open>
  Claim C9, as the code has it. For an element type that leaves room for at least one
  element in a page behind the header: a fresh segment has \<open>dbegin = dend\<close> and its
  cursors are in order within the page; the empty bag satisfies the invariant; and a push
  into a bag whose linked segments all satisfy it (cursors in order within the page, at
  least one element each) succeeds, keeps it, adds exactly the one element pushed, leaves
  the other workers' lists alone, and leaves \<open>dend\<close> of the worker's first segment one
  past where it constructed the element: one past the old \<open>dend\<close>, or one past
  \<open>dbegin\<close> of the segment it linked because there was none or the first one was full.
\<close>

theorem push_keeps_segments_in_page:
  assumes "layout_ok L" and "bag_inv L s" and "tid < length (heads s)"
  shows "segment_ok L (newHeader L m :: 'a header) \<and>
         dbegin (newHeader L m :: 'a header) = dend (newHeader L m :: 'a header) \<and>
         bag_inv L (insert_bag_ctor n ps :: 'a insert_bag) \<and>
         (\<exists>s'. push L tid val s = Inr s' \<and> bag_inv L s' \<and>
            mset (bag_elems s') = mset (bag_elems s) + {#val#} \<and>
            (\<forall>t. t \<noteq> tid \<longrightarrow> heads s' ! t = heads s ! t) \<and>
            heads s' ! tid \<noteq> [] \<and>
            tl (heads s' ! tid) =
              (if heads s ! tid = [] \<or> dend (hd (heads s ! tid)) = dlast (hd (heads s ! tid))
               then heads s ! tid else tl (heads s ! tid)) \<and>
            dend (hd (heads s' ! tid)) =
              (if heads s ! tid = [] \<or> dend (hd (heads s ! tid)) = dlast (hd (heads s ! tid))
               then first_slot L else dend (hd (heads s ! tid))) + 1 \<and>
            seg_elems (hd (heads s' ! tid)) =
              (if heads s ! tid = [] \<or> dend (hd (heads s ! tid)) = dlast (hd (heads s ! tid))
               then [] else seg_elems (hd (heads s ! tid))) @ [val])"
proof -
  from push_ok [OF assms, of val] obtain s' where
    "push L tid val s = Inr s' \<and> bag_inv L s' \<and> length (heads s') = length (heads s) \<and>
           mset (bag_elems s') = mset (bag_elems s) + {#val#} \<and>
           (\<forall>t. t \<noteq> tid \<longrightarrow> heads s' ! t = heads s ! t) \<and>
           heads s' ! tid \<noteq> [] \<and>
           tl (heads s' ! tid) =
             (if heads s ! tid = [] \<or> dend (hd (heads s ! tid)) = dlast (hd (heads s ! tid))
              then heads s ! tid else tl (heads s ! tid)) \<and>
           dend (hd (heads s' ! tid)) =
             (if heads s ! tid = [] \<or> dend (hd (heads s ! tid)) = dlast (hd (heads s ! tid))
              then first_slot L else dend (hd (heads s ! tid))) + 1 \<and>
           seg_elems (hd (heads s' ! tid)) =
             (if heads s ! tid = [] \<or> dend (hd (heads s ! tid)) = dlast (hd (heads s ! tid))
              then [] else seg_elems (hd (heads s ! tid))) @ [val]" ..
  then show ?thesis
    using newHeader_ok [OF assms(1), of m] bag_inv_ctor [of L n ps]
    by (auto simp: newHeader_fields)
qed

lemma two_segment_bag_reachable:
  "pushes small_layout [(0, 10), (0, 20), (0, 30), (0, 40)] (insert_bag_ctor 1 []) = Inr two_segment_bag"
  by (simp add: push_def pageAlloc_def newHeader_def in_page_def small_layout_def
      insert_bag_ctor_def two_segment_bag_def Let_def)

lemma two_segment_bag_inv: "bag_inv small_layout two_segment_bag"
  by (simp add: bag_inv_def linked_ok_def segment_ok_def two_segment_bag_def small_layout_def upt_rec)

theorem push_keeps_segments_in_page_witness:
  "layout_ok small_layout \<and> bag_inv small_layout two_segment_bag \<and>
   (0::nat) < length (heads two_segment_bag) \<and>
   (\<exists>s'. push small_layout 0 50 two_segment_bag = Inr s' \<and> bag_inv small_layout s' \<and>
      mset (bag_elems s') = {#10, 20, 30, 40, 50#} \<and>
      dend (hd (heads s' ! 0)) = 7 \<and> seg_elems (hd (heads s' ! 0)) = [40, 50])"
proof -
  have l: "layout_ok small_layout" by (simp add: layout_ok_def small_layout_def first_slot_def)
  have i: "bag_inv small_layout two_segment_bag" by (rule two_segment_bag_inv)
  have t: "(0::nat) < length (heads two_segment_bag)" by (simp add: two_segment_bag_def)
  have e: "bag_elems two_segment_bag = [40, 10, 20, 30]"
    by (simp add: bag_elems_def seg_elems_def two_segment_bag_def upt_rec)
  have h: "heads two_segment_bag ! 0 \<noteq> []" "dend (hd (heads two_segment_bag ! 0)) = 6"
    "dlast (hd (heads two_segment_bag ! 0)) = 8" "seg_elems (hd (heads two_segment_bag ! 0)) = [40]"
    by (simp_all add: two_segment_bag_def seg_elems_def upt_rec)
  show ?thesis
    using l i t push_keeps_segments_in_page [OF l i t, of 1 1 "[]" 50]
    by (auto simp: e h)
qed

text \<open>
  Without that room the claim fails: for an element larger than a page the fresh segment
  has \<open>dbegin = 1\<close> past \<open>dlast = 0\<close>, and for an element of the size of a page the fresh
  segment is full (\<open>dend = dlast\<close>) and the push constructs its element outside the page.
\<close>

theorem large_element_breaks_segment_invariant:
  "dbegin (newHeader oversized_layout 1 :: nat header) = 1 \<and>
   dlast (newHeader oversized_layout 1 :: nat header) = 0 \<and>
   \<not> segment_ok oversized_layout (newHeader oversized_layout 1 :: nat header) \<and>
   dend (newHeader page_sized_layout 1 :: nat header) = 1 \<and>
   dlast (newHeader page_sized_layout 1 :: nat header) = 1 \<and>
   push page_sized_layout 0 (7::nat) (insert_bag_ctor 1 []) = Inl MemoryFault"
  by (simp add: newHeader_def segment_ok_def oversized_layout_def page_sized_layout_def
      push_def pageAlloc_def in_page_def insert_bag_ctor_def Let_def)

text \<open>
  Claim C4. The claim: \<open>clear()\<close> destroys every element of every segment of every
  worker and returns every segment to the allocator. The code, on the bag of one worker
  that holds 40 in its first segment (page 2) and 10, 20, 30 in its second (page 1):
  \<open>destruct()\<close> unlinks, destroys and frees only the first segment of the worker, then
  \<open>clear()\<close> sets the head to null. Only 40 has been destroyed, page 1 is still
  allocated and no longer reachable; the bag does iterate as empty.
\<close>

theorem clear_destroys_head_segments_only:
  "pushes small_layout [(0, 10), (0, 20), (0, 30), (0, 40)] (insert_bag_ctor 1 []) = Inr two_segment_bag \<and>
   bag_contents small_layout two_segment_bag = Some (Inr [40, 10, 20, 30]) \<and>
   clear small_layout two_segment_bag = Inr \<lparr>heads = [[]], pages = [1], destroyed = [40]\<rparr> \<and>
   bag_contents small_layout \<lparr>heads = [[]], pages = [1], destroyed = [40 :: nat]\<rparr> = Some (Inr [])"
proof -
  have "bag_contents small_layout two_segment_bag = Some (Inr (bag_elems two_segment_bag))"
    by (rule bag_contents_ok [OF two_segment_bag_inv])
  moreover have "bag_elems two_segment_bag = [40, 10, 20, 30]"
    by (simp add: bag_elems_def seg_elems_def two_segment_bag_def upt_rec)
  moreover have "clear small_layout two_segment_bag = Inr \<lparr>heads = [[]], pages = [1], destroyed = [40]\<rparr>"
    by (simp add: clear_def destruct_def destruct_worker_def pageFree_def in_page_def
        two_segment_bag_def small_layout_def upt_rec)
  moreover have "bag_inv small_layout \<lparr>heads = [[]], pages = [1], destroyed = [40 :: nat]\<rparr>"
    by (simp add: bag_inv_def)
  from bag_contents_ok [OF this]
  have "bag_contents small_layout \<lparr>heads = [[]], pages = [1], destroyed = [40 :: nat]\<rparr> = Some (Inr [])"
    by (simp add: bag_elems_def)
  ultimately show ?thesis using two_segment_bag_reachable by simp
qed


section \<open>Properties of the local computation graphs\<close>

text \<open>
  The two tables of a valid graph, and \<open>LC_CSR_Graph\<close>.
\<close>

lemma unat_word_of_nat32: "k < 2 ^ 32 \<Longrightarrow> unat (word_of_nat k :: 32 word) = k"
  by (simp add: unat_of_nat)
lemma word_of_nat32_eq_0: "(word_of_nat k :: 32 word) = 0 \<longleftrightarrow> k = 0" if "k < 2 ^ 32"
proof
  assume "(word_of_nat k :: 32 word) = 0"
  then have "unat (word_of_nat k :: 32 word) = 0" by simp
  then show "k = 0" using unat_word_of_nat32 [of k] that by simp
qed simp
lemma edge_dsts_node_dests:
  assumes "valid_FileGraph g" "k < unat (numNodes g)" "k < 2 ^ 32"
  shows "edge_dsts g (word_of_nat k) = Inr (node_dests g k)"
proof -
  have u: "unat (word_of_nat k :: 32 word) = k" by (rule unat_word_of_nat32 [OF assms(3)])
  have z: "(word_of_nat k :: 32 word) = 0 \<longleftrightarrow> k = 0" by (rule word_of_nat32_eq_0 [OF assms(3)])
  have "unat (word_of_nat k :: 32 word) < unat (numNodes g)" using assms(2) u by simp
  from edge_dsts_valid [OF assms(1) this] show ?thesis
    by (simp add: u z node_dests_def)
qed
lemma neighbor_ids_valid:
  assumes "valid_FileGraph g" "k < unat (numNodes g)" "k < 2 ^ 32"
  shows "neighbor_ids g (word_of_nat k) = Inr (node_dests g k)"
proof -
  have h: "raw_neighbor_begin g = edge_begin g" "raw_neighbor_end g = edge_end g"
    by (auto simp: raw_neighbor_begin_def raw_neighbor_end_def edge_begin_def edge_end_def)
  have "neighbor_ids g (word_of_nat k) = edge_dsts g (word_of_nat k)"
    unfolding neighbor_ids_def edge_dsts_def h ..
  then show ?thesis using edge_dsts_node_dests [OF assms] by simp
qed
lemma neighborsSize_valid:
  assumes "valid_FileGraph g" "k < unat (numNodes g)" "k < 2 ^ 32"
  shows "\<exists>sz. neighborsSize g (word_of_nat k) = Inr sz \<and> unat sz = length (node_dests g k)"
proof -
  have u: "unat (word_of_nat k :: 32 word) = k" by (rule unat_word_of_nat32 [OF assms(3)])
  have z: "(word_of_nat k :: 32 word) = 0 \<longleftrightarrow> k = 0" by (rule word_of_nat32_eq_0 [OF assms(3)])
  have lt: "unat (word_of_nat k :: 32 word) < unat (numNodes g)" using assms(2) u by simp
  let ?b = "if k = 0 then 0 else offsets g ! (k - 1)" and ?e = "offsets g ! k"
  have b: "raw_neighbor_begin g (word_of_nat k) = Inr ?b"
    using edge_begin_valid [OF assms(1) lt] by (simp add: raw_neighbor_begin_def edge_begin_def u z)
  have e: "raw_neighbor_end g (word_of_nat k) = Inr ?e"
    using edge_end_valid [OF assms(1) lt] by (simp add: raw_neighbor_end_def edge_end_def u)
  have le: "unat ?b \<le> unat ?e" using edge_range_bounds(1) [OF assms(1) lt] unfolding u z .
  then have "?b \<le> ?e" by (simp add: word_le_nat_alt)
  then have "unat (?e - ?b) = unat ?e - unat ?b" by (rule unat_sub)
  then show ?thesis by (simp add: neighborsSize_def b e node_dests_def)
qed
lemma load64_table_offsets:
  assumes "a + 8 * n \<le> length m"
  shows "load64_table m a n = Inr (map (\<lambda>i. word_of_nat (le_decode (take 8 (drop (a + 8 * i) m)))) [0..<n])"
  using assms
proof (induction n arbitrary: a)
  case 0 then show ?case by simp
next
  case (Suc n)
  have "load64_table m (a + 8) n =
          Inr (map (\<lambda>i. word_of_nat (le_decode (take 8 (drop (a + 8 + 8 * i) m)))) [0..<n])"
    using Suc.prems by (intro Suc.IH) simp
  moreover have "[0..<Suc n] = 0 # map Suc [0..<n]" by (simp add: upt_conv_Cons map_Suc_upt del: upt_Suc)
  ultimately show ?case using Suc.prems
    by (simp add: load64_def comp_def add.assoc del: upt_Suc)
qed
lemma load32_table_dests:
  assumes "a + 4 * n \<le> length m"
  shows "load32_table m a n = Inr (map (\<lambda>i. word_of_nat (le_decode (take 4 (drop (a + 4 * i) m)))) [0..<n])"
  using assms
proof (induction n arbitrary: a)
  case 0 then show ?case by simp
next
  case (Suc n)
  have "load32_table m (a + 4) n =
          Inr (map (\<lambda>i. word_of_nat (le_decode (take 4 (drop (a + 4 + 4 * i) m)))) [0..<n])"
    using Suc.prems by (intro Suc.IH) simp
  moreover have "[0..<Suc n] = 0 # map Suc [0..<n]" by (simp add: upt_conv_Cons map_Suc_upt del: upt_Suc)
  ultimately show ?case using Suc.prems
    by (simp add: load32_def comp_def add.assoc del: upt_Suc)
qed
lemma ucast_size_bounded:
  assumes "unat (w :: 64 word) < 2 ^ 32"
  shows "unat (ucast (ucast w :: 32 word) :: 64 word) = unat w"
  using assms by (simp add: unsigned_ucast_eq unsigned_take_bit_eq take_bit_nat_eq_self)
lemma LC_CSR_build_valid:
  assumes "valid_FileGraph g" "unat (numNodes g) < 2 ^ 32" "unat (numEdges g) < 2 ^ 32"
  shows "LC_CSR_build g = Inr \<lparr>csr_EdgeIndData = offsets g, csr_EdgeDst = dests g,
           csr_numNodes = ucast (size_FileGraph g), csr_numEdges = ucast (sizeEdges g)\<rparr>"
proof -
  note lay = valid_layout [OF assms(1)]
  have a: "load64_table (masterMapping g) (outIdx g) (unat (numNodes g)) = Inr (offsets g)"
    using lay by (subst load64_table_offsets) (simp_all add: offsets_def)
  have b: "load32_table (masterMapping g) (outs g) (unat (numEdges g)) = Inr (dests g)"
    using lay by (subst load32_table_dests) (simp_all add: dests_def)
  have "length (offsets g) = unat (numNodes g)" "length (dests g) = unat (numEdges g)"
    by (simp_all add: offsets_def dests_def)
  then show ?thesis
    using ucast_size_bounded [OF assms(2)] ucast_size_bounded [OF assms(3)]
    by (simp add: LC_CSR_build_def a b size_FileGraph_def sizeEdges_def Let_def)
qed
lemma csr_edges_loop_valid:
  assumes "e \<le> length (csr_EdgeDst G)" "b \<le> e"
  shows "csr_edges_loop G b e = Inr (map (\<lambda>i. csr_EdgeDst G ! i) [b..<e])"
  using assms(2)
proof (induction "e - b" arbitrary: b)
  case 0
  then show ?case by simp
next
  case (Suc k)
  then have lt: "b < e" and k: "k = e - (b + 1)" and le: "b + 1 \<le> e" by auto
  have "csr_edges_loop G (b + 1) e = Inr (map (\<lambda>i. csr_EdgeDst G ! i) [b + 1..<e])"
    by (rule Suc.hyps(1) [OF k le])
  then show ?case using lt assms(1)
    by (subst csr_edges_loop.simps) (simp add: csr_getEdgeDst_def array_get_def upt_conv_Cons)
qed
lemma csr_edge_dsts_valid:
  assumes "valid_FileGraph g" "unat (numNodes g) < 2 ^ 32" "unat (numEdges g) < 2 ^ 32"
    and "k < unat (numNodes g)" and "LC_CSR_build g = Inr G"
  shows "csr_edge_dsts G (word_of_nat k) = Inr (node_dests g k)"
proof -
  have k32: "k < 2 ^ 32" using assms(2,4) by simp
  have u: "unat (word_of_nat k :: 32 word) = k" by (rule unat_word_of_nat32 [OF k32])
  have z: "(word_of_nat k :: 32 word) = 0 \<longleftrightarrow> k = 0" by (rule word_of_nat32_eq_0 [OF k32])
  have lt: "unat (word_of_nat k :: 32 word) < unat (numNodes g)" using assms(4) u by simp
  have G: "csr_EdgeIndData G = offsets g" "csr_EdgeDst G = dests g"
    using LC_CSR_build_valid [OF assms(1-3)] assms(5) by auto
  have len: "length (offsets g) = unat (numNodes g)" "length (dests g) = unat (numEdges g)"
    by (simp_all add: offsets_def dests_def)
  have m1: "unat (word_of_nat k - 1 :: 32 word) = k - 1" if "k \<noteq> 0"
    using that z u by (simp add: unat_minus_one)
  have b: "csr_raw_neighbor_begin G (word_of_nat k) = Inr (if k = 0 then 0 else offsets g ! (k - 1))"
    using assms(4) len by (auto simp add: csr_raw_neighbor_begin_def array_get_def G z m1)
  have e: "csr_raw_neighbor_end G (word_of_nat k) = Inr (offsets g ! k)"
    using assms(4) len by (simp add: csr_raw_neighbor_end_def array_get_def G u)
  have r: "unat (if k = 0 then 0 else offsets g ! (k - 1)) \<le> unat (offsets g ! k)"
    "unat (offsets g ! k) \<le> length (csr_EdgeDst G)"
    using edge_range_bounds [OF assms(1) lt] unfolding u z by (simp_all add: G len)
  show ?thesis
    using csr_edges_loop_valid [OF r(2) r(1)]
    by (simp add: csr_edge_dsts_def b e node_dests_def G)
qed

text \<open>
  \<open>LC_CSRInline_Graph\<close>.
\<close>

lemma edge_start_0: "edge_start g 0 = 0"
  by (simp add: edge_start_def)
lemma edge_start_Suc: "edge_start g (Suc k) = unat (offsets g ! k)"
  by (simp add: edge_start_def)
lemma edge_start_mono:
  assumes "valid_FileGraph g" "k < unat (numNodes g)"
  shows "edge_start g k \<le> edge_start g (Suc k)"
proof (cases "k = 0")
  case True then show ?thesis by (simp add: edge_start_def)
next
  case False
  have "offsets g ! (k - 1) \<le> offsets g ! k" using assms by (intro offsets_mono) auto
  then show ?thesis using False by (simp add: edge_start_def word_le_nat_alt)
qed
lemma edge_start_le:
  assumes "valid_FileGraph g" "k \<le> unat (numNodes g)"
  shows "edge_start g k \<le> unat (numEdges g)"
proof (cases "k = 0")
  case True then show ?thesis by (simp add: edge_start_def)
next
  case False
  then have "k - 1 < unat (numNodes g)" using assms(2) by simp
  from offsets_le_numEdges [OF assms(1) this] show ?thesis
    using False by (simp add: edge_start_def word_le_nat_alt)
qed
lemma edge_start_last:
  assumes "valid_FileGraph g"
  shows "edge_start g (unat (numNodes g)) = unat (numEdges g)"
proof (cases "unat (numNodes g) = 0")
  case True
  then have "offsets g = []" by (simp add: offsets_def)
  then have "numEdges g = 0" using assms by (simp add: valid_FileGraph_def)
  then show ?thesis using True by (simp add: edge_start_def)
next
  case False
  have len: "length (offsets g) = unat (numNodes g)" by (simp add: offsets_def)
  then have ne: "offsets g \<noteq> []" using False by auto
  then have "last (offsets g) = numEdges g" using assms by (simp add: valid_FileGraph_def)
  then show ?thesis using False ne len by (simp add: edge_start_def last_conv_nth)
qed
lemma node_dests_alt:
  assumes "valid_FileGraph g" "k < unat (numNodes g)"
  shows "node_dests g k = take (edge_start g (Suc k) - edge_start g k) (drop (edge_start g k) (dests g))"
    and "length (node_dests g k) = edge_start g (Suc k) - edge_start g k"
proof -
  have le: "edge_start g (Suc k) \<le> length (dests g)"
    using edge_start_le [OF assms(1), of "Suc k"] assms(2) by (simp add: dests_def)
  have m: "edge_start g k \<le> edge_start g (Suc k)" by (rule edge_start_mono [OF assms])
  have nd: "node_dests g k = map (\<lambda>i. dests g ! i) [edge_start g k..<edge_start g (Suc k)]"
    by (simp add: node_dests_def edge_start_def)
  show "length (node_dests g k) = edge_start g (Suc k) - edge_start g k" by (simp add: nd)
  show "node_dests g k = take (edge_start g (Suc k) - edge_start g k) (drop (edge_start g k) (dests g))"
    unfolding nd using le m
    by (intro nth_equalityI) (auto simp: min_def)
qed
lemma node_dests_in_range:
  assumes "valid_FileGraph g" "k < unat (numNodes g)" "d \<in> set (node_dests g k)"
  shows "unat d < unat (numNodes g)"
proof -
  have "set (node_dests g k) \<subseteq> set (dests g)"
    unfolding node_dests_alt(1) [OF assms(1,2)] by (meson set_take_subset set_drop_subset subset_trans)
  moreover have "\<forall>d \<in> set (dests g). unat d < unat (numNodes g)"
    using assms(1) by (simp add: valid_FileGraph_def list_all_iff)
  ultimately show ?thesis using assms(3) by auto
qed
lemma inline_edges_ok:
  assumes "cur + length nis \<le> length ed" "\<forall>ni \<in> set nis. unat ni < length ids"
  shows "inline_edges ids nis cur ed =
           Inr (cur + length nis,
                take cur ed @ map (\<lambda>ni. Some (ids ! unat ni)) nis @ drop (cur + length nis) ed)"
  using assms
proof (induction nis arbitrary: cur ed)
  case Nil then show ?case by simp
next
  case (Cons ni nis)
  let ?ed = "ed[cur := Some (ids ! unat ni)]"
  have c: "cur < length ed" using Cons.prems(1) by simp
  have "inline_edges ids nis (cur + 1) ?ed =
          Inr (cur + 1 + length nis,
               take (cur + 1) ?ed @ map (\<lambda>ni. Some (ids ! unat ni)) nis @ drop (cur + 1 + length nis) ?ed)"
    using Cons.prems by (intro Cons.IH) simp_all
  moreover have "take (cur + 1) ?ed = take cur ed @ [Some (ids ! unat ni)]"
    using c by (simp add: upd_conv_take_nth_drop)
  moreover have "drop (cur + 1 + length nis) ?ed = drop (cur + 1 + length nis) ed"
    by simp
  ultimately show ?case using c Cons.prems(2) by simp
qed
lemma inline_nodes_ok:
  assumes v: "valid_FileGraph g" and n32: "unat (numNodes g) < 2 ^ 32" and k: "k \<le> unat (numNodes g)"
  shows "inline_nodes g [0..<unat (numNodes g)] [k..<unat (numNodes g)] (edge_start g k)
           (map (inline_node_info g) [0..<k] @ replicate (unat (numNodes g) - k) None)
           (map (\<lambda>d. Some (unat d)) (take (edge_start g k) (dests g))
              @ replicate (unat (numEdges g) - edge_start g k) None)
         = Inr (map (inline_node_info g) [0..<unat (numNodes g)], map (\<lambda>d. Some (unat d)) (dests g))"
  using k
proof (induction "unat (numNodes g) - k" arbitrary: k)
  case 0
  then have "k = unat (numNodes g)" by simp
  then show ?case using edge_start_last [OF v] by (simp add: dests_def)
next
  case (Suc j)
  let ?n = "unat (numNodes g)" and ?E = "unat (numEdges g)"
  from Suc have lt: "k < ?n" and j: "j = ?n - Suc k" and le: "Suc k \<le> ?n" by auto
  have k32: "k < 2 ^ 32" using lt n32 by simp
  let ?nd = "map (inline_node_info g) [0..<k] @ replicate (?n - k) None"
  let ?ed = "map (\<lambda>d. Some (unat d)) (take (edge_start g k) (dests g)) @ replicate (?E - edge_start g k) None"
  have lenD: "length (dests g) = ?E" by (simp add: dests_def)
  have sk: "edge_start g k \<le> edge_start g (Suc k)" by (rule edge_start_mono [OF v lt])
  have sE: "edge_start g (Suc k) \<le> ?E" by (rule edge_start_le [OF v le])
  have lenN: "length (node_dests g k) = edge_start g (Suc k) - edge_start g k"
    by (rule node_dests_alt(2) [OF v lt])
  have nb: "neighbor_ids g (word_of_nat k) = Inr (node_dests g k)"
    by (rule neighbor_ids_valid [OF v lt k32])
  have led: "length ?ed = ?E" using sk sE lenD by simp
  define ed2 where "ed2 = take (edge_start g k) ?ed @ map (\<lambda>ni. Some ([0..<?n] ! unat ni)) (node_dests g k)
                 @ drop (edge_start g (Suc k)) ?ed"
  have ie: "inline_edges [0..<?n] (node_dests g k) (edge_start g k) ?ed = Inr (edge_start g (Suc k), ed2)"
    unfolding ed2_def
    using inline_edges_ok [of "edge_start g k" "node_dests g k" ?ed "[0..<?n]"]
      node_dests_in_range [OF v lt] lenN sk sE led by simp
  have m1: "map (\<lambda>ni. Some ([0..<?n] ! unat ni)) (node_dests g k) = map (\<lambda>d. Some (unat d)) (node_dests g k)"
    using node_dests_in_range [OF v lt] by (intro map_cong) auto
  have t1: "take (edge_start g k) ?ed = map (\<lambda>d. Some (unat d)) (take (edge_start g k) (dests g))"
    using sk sE lenD by simp
  have d1: "drop (edge_start g (Suc k)) ?ed = replicate (?E - edge_start g (Suc k)) None"
    using sk sE lenD by simp
  have tk: "take (edge_start g (Suc k)) (dests g) = take (edge_start g k) (dests g) @ node_dests g k"
    unfolding node_dests_alt(1) [OF v lt] using sk
    by (metis add_diff_inverse_nat take_add not_less)
  have ed': "ed2 = map (\<lambda>d. Some (unat d)) (take (edge_start g (Suc k)) (dests g))
               @ replicate (?E - edge_start g (Suc k)) None"
    unfolding ed2_def m1 t1 d1 tk by simp
  have nd': "?nd[k := Some \<lparr>edgebegin = edge_start g k, edgeend = edge_start g (Suc k)\<rparr>]
           = map (inline_node_info g) [0..<Suc k] @ replicate (?n - Suc k) None"
  proof -
    obtain m where m: "?n - k = Suc m" using lt by (cases "?n - k") auto
    then have "?n - Suc k = m" by simp
    then show ?thesis using m by (simp add: list_update_append inline_node_info_def)
  qed
  have up: "[k..<?n] = k # [Suc k..<?n]" using lt by (simp add: upt_conv_Cons)
  have g1: "[0..<?n] ! k = k" "(length [0..<?n] \<le> k \<or> length ?nd \<le> k) = False"
    using lt by simp_all
  have "inline_nodes g [0..<?n] (k # [Suc k..<?n]) (edge_start g k) ?nd ?ed
      = inline_nodes g [0..<?n] [Suc k..<?n] (edge_start g (Suc k))
          (?nd[k := Some \<lparr>edgebegin = edge_start g k, edgeend = edge_start g (Suc k)\<rparr>]) ed2"
    by (simp only: inline_nodes.simps g1 if_False nb ie sum.case prod.case)
  then show ?case
    using Suc.hyps(1) [OF j le] by (simp only: up nd' ed')
qed

lemma LC_CSRInline_build_valid:
  assumes "valid_FileGraph g" "unat (numNodes g) < 2 ^ 32" "unat (numEdges g) < 2 ^ 32"
  shows "LC_CSRInline_build g =
           Inr \<lparr>inl_NodeData = map (inline_node_info g) [0..<unat (numNodes g)],
                inl_EdgeData = map (\<lambda>d. Some (unat d)) (dests g),
                inl_numNodes = ucast (size_FileGraph g), inl_numEdges = ucast (sizeEdges g),
                inl_endNode = unat (numNodes g)\<rparr>"
proof -
  have n: "unat (ucast (size_FileGraph g) :: 64 word) = unat (numNodes g)"
    using ucast_size_bounded [OF assms(2)] by (simp add: size_FileGraph_def)
  have e: "unat (ucast (sizeEdges g) :: 64 word) = unat (numEdges g)"
    using ucast_size_bounded [OF assms(3)] by (simp add: sizeEdges_def)
  show ?thesis
    using inline_nodes_ok [OF assms(1,2), of 0]
    by (simp add: LC_CSRInline_build_def Let_def n e edge_start_0)
qed
lemma inl_edges_loop_valid:
  assumes "inl_EdgeData G = map (\<lambda>d. Some (f d)) ds" "e \<le> length ds" "b \<le> e"
  shows "inl_edges_loop G b e = Inr (map (\<lambda>i. f (ds ! i)) [b..<e])"
  using assms(3)
proof (induction "e - b" arbitrary: b)
  case 0
  then show ?case by simp
next
  case (Suc k)
  then have lt: "b < e" and k: "k = e - (b + 1)" and le: "b + 1 \<le> e" by auto
  have "inl_edges_loop G (b + 1) e = Inr (map (\<lambda>i. f (ds ! i)) [b + 1..<e])"
    by (rule Suc.hyps(1) [OF k le])
  then show ?case using lt assms(1,2)
    by (subst inl_edges_loop.simps) (simp add: inl_getEdgeDst_def array_get_def upt_conv_Cons)
qed
lemma inl_edge_dsts_valid:
  assumes "valid_FileGraph g" "unat (numNodes g) < 2 ^ 32" "unat (numEdges g) < 2 ^ 32"
    and "k < unat (numNodes g)" and "LC_CSRInline_build g = Inr G"
  shows "inl_edge_dsts G k = Inr (map unat (node_dests g k))"
proof -
  have G: "inl_NodeData G = map (inline_node_info g) [0..<unat (numNodes g)]"
    "inl_EdgeData G = map (\<lambda>d. Some (unat d)) (dests g)"
    using LC_CSRInline_build_valid [OF assms(1-3)] assms(5) by auto
  have nd: "inl_node G k = Inr \<lparr>edgebegin = edge_start g k, edgeend = edge_start g (Suc k)\<rparr>"
    using assms(4) by (simp add: inl_node_def array_get_def G inline_node_info_def)
  have le: "edge_start g (Suc k) \<le> length (dests g)"
    using edge_start_le [OF assms(1), of "Suc k"] assms(4) by (simp add: dests_def)
  have m: "edge_start g k \<le> edge_start g (Suc k)" by (rule edge_start_mono [OF assms(1,4)])
  have "node_dests g k = map (\<lambda>i. dests g ! i) [edge_start g k..<edge_start g (Suc k)]"
    by (simp add: node_dests_def edge_start_def)
  then show ?thesis
    using inl_edges_loop_valid [OF G(2) le m]
    by (simp add: inl_edge_dsts_def inl_edge_begin_def inl_edge_end_def nd comp_def)
qed

text \<open>
  The linear layouts: placing the nodes, placing the edges, reading them back.
\<close>

lemma next_loop_bounds:
  "0 < sz \<Longrightarrow> ni \<le> ei \<Longrightarrow> ei \<le> next_loop sz ni ei \<and> next_loop sz ni ei < ei + int sz"
proof (induction sz ni ei rule: next_loop.induct)
  case (1 sz ni ei)
  show ?case
  proof (cases "ni < ei")
    case True
    have u: "next_loop sz ni ei = next_loop sz (ni + int sz) ei"
      using True "1.prems"(1) by (subst next_loop.simps) simp
    show ?thesis
    proof (cases "ni + int sz \<le> ei")
      case le: True
      have "ei \<le> next_loop sz (ni + int sz) ei \<and> next_loop sz (ni + int sz) ei < ei + int sz"
        using "1.IH" True "1.prems"(1) le by simp
      then show ?thesis unfolding u .
    next
      case gt: False
      have "next_loop sz (ni + int sz) ei = ni + int sz"
        using gt by (subst next_loop.simps) simp
      then show ?thesis unfolding u using True gt by simp
    qed
  next
    case False
    then have "next_loop sz ni ei = ni" by (subst next_loop.simps) simp
    then show ?thesis using False "1.prems" by simp
  qed
qed
lemma sint_ucast_small:
  assumes "unat (w :: 64 word) < 2 ^ 31"
  shows "sint (ucast w :: 32 word) = int (unat w)"
proof -
  have u: "uint w < 2 ^ 31" using assms
    by (metis of_nat_less_iff of_nat_numeral of_nat_power uint_nat)
  have n: "0 \<le> uint w" by simp
  have a: "uint (ucast w :: 32 word) = take_bit 32 (uint w)"
    by (simp add: unsigned_ucast_eq unsigned_take_bit_eq)
  have b: "take_bit 32 (uint w) = uint w"
    by (rule take_bit_int_eq_self) (use u in auto)
  have c: "sint (ucast w :: 32 word) = signed_take_bit 31 (uint (ucast w :: 32 word))"
    by (simp add: sint_uint)
  have "- (2 ^ 31) \<le> (0 :: int)" by simp
  then have "- (2 ^ 31) \<le> uint w" using n by (rule order_trans)
  then have d: "signed_take_bit 31 (uint w) = uint w"
    using u by (intro signed_take_bit_int_eq_self) auto
  have "sint (ucast w :: 32 word) = uint w" unfolding c a b d ..
  also have "uint w = int (unat w)" by (rule uint_nat)
  finally show ?thesis .
qed

lemma node_end_gt: "0 < sizeof_NodeInfo S \<Longrightarrow> a < node_end S g k a"
proof -
  assume "0 < sizeof_NodeInfo S"
  then have "0 < int (sizeof_NodeInfo S)" by simp
  moreover have "0 \<le> int (degree g k) * int (sizeof_EdgeInfo S)" by simp
  ultimately show ?thesis unfolding node_end_def by linarith
qed
lemma nat_add_le_int: "0 \<le> c \<Longrightarrow> c + int sz \<le> int bs \<Longrightarrow> nat c + sz \<le> bs"
  by arith
lemma in_blockI: "0 \<le> c \<Longrightarrow> c + int sz \<le> int (block_size mem B) \<Longrightarrow> in_block mem (B, c) sz"
  by (simp add: in_block_def nat_add_le_int)
lemma placed_insert:
  assumes p: "placed S g K nodes mem" and b: "b \<notin> K" "b < length nodes" and c: "0 \<le> c"
    and sN: "0 < sizeof_NodeInfo S"
    and below: "\<forall>k\<in>K. \<forall>a. nodes ! k = Some (B, a) \<longrightarrow> node_end S g k a \<le> c"
    and room: "node_end S g b c \<le> int (block_size mem B)"
  shows "placed S g (insert b K) (nodes[b := Some (B, c)])
           (mem\<lparr>cells := (cells mem)((B, c) \<mapsto> NodeCell (int (degree g b)))\<rparr>)"
  unfolding placed_def
proof (intro conjI ballI allI impI)
  fix k assume k: "k \<in> insert b K"
  show "k < length (nodes[b := Some (B, c)])"
    using k p b by (auto simp: placed_def)
  show "\<exists>B' a. nodes[b := Some (B, c)] ! k = Some (B', a) \<and> 0 \<le> a \<and>
          cells (mem\<lparr>cells := (cells mem)((B, c) \<mapsto> NodeCell (int (degree g b)))\<rparr>) (B', a)
            = Some (NodeCell (int (degree g k))) \<and>
          node_end S g k a \<le> int (block_size (mem\<lparr>cells := (cells mem)((B, c) \<mapsto> NodeCell (int (degree g b)))\<rparr>) B')"
  proof (cases "k = b")
    case True
    then show ?thesis using b c room by simp
  next
    case False
    then have kK: "k \<in> K" using k by simp
    then obtain B' a where a: "nodes ! k = Some (B', a)" "0 \<le> a"
      "cells mem (B', a) = Some (NodeCell (int (degree g k)))"
      "node_end S g k a \<le> int (block_size mem B')"
      using p by (auto simp: placed_def)
    have "(B', a) \<noteq> (B, c)"
      using below kK a(1) node_end_gt [OF sN, of a g k] by auto
    then show ?thesis using a False by auto
  qed
next
  fix k k' B' a a'
  assume k: "k \<in> insert b K" and k': "k' \<in> insert b K" and ne: "k \<noteq> k'"
    and n1: "nodes[b := Some (B, c)] ! k = Some (B', a)"
    and n2: "nodes[b := Some (B, c)] ! k' = Some (B', a')"
  show "node_end S g k a \<le> a' \<or> node_end S g k' a' \<le> a"
  proof (cases "k = b")
    case True
    then have "k' \<in> K" "k' \<noteq> b" using k' ne by auto
    then have "nodes ! k' = Some (B', a')" using n2 by simp
    moreover have "B' = B" "a = c" using True n1 b by auto
    ultimately show ?thesis using below \<open>k' \<in> K\<close> by auto
  next
    case False
    then have kK: "k \<in> K" using k by simp
    then have nk: "nodes ! k = Some (B', a)" using n1 False by simp
    show ?thesis
    proof (cases "k' = b")
      case True
      then have "B' = B" "a' = c" using n2 b by auto
      then show ?thesis using below kK nk by auto
    next
      case False
      then have "k' \<in> K" "nodes ! k' = Some (B', a')" using k' n2 by auto
      then show ?thesis using p kK nk ne unfolding placed_def by blast
    qed
  qed
qed
lemma placed_mono: "placed S g K nodes mem \<Longrightarrow> K' \<subseteq> K \<Longrightarrow> placed S g K' nodes mem"
  unfolding placed_def by blast
lemma place_nodes_ok:
  assumes sN: "0 < sizeof_NodeInfo S" and v: "valid_FileGraph g"
    and n32: "unat (numNodes g) < 2 ^ 32"
    and d31: "\<forall>k<unat (numNodes g). degree g k < 2 ^ 31"
  shows "b \<le> e \<Longrightarrow> e \<le> unat (numNodes g) \<Longrightarrow> e \<le> length nodes \<Longrightarrow>
         placed S g K nodes mem \<Longrightarrow> K \<inter> {b..<e} = {} \<Longrightarrow> 0 \<le> c \<Longrightarrow>
         (\<forall>k\<in>K. \<forall>a. nodes ! k = Some (B, a) \<longrightarrow> node_end S g k a \<le> c) \<Longrightarrow>
         c + int (sum (node_weight S g) {b..<e}) \<le> int (block_size mem B) \<Longrightarrow>
         \<exists>c' mem' nodes'. place_nodes S g [b..<e] (B, c) mem nodes = Inr ((B, c'), mem', nodes') \<and>
            placed S g (K \<union> {b..<e}) nodes' mem' \<and> block_size mem' = block_size mem \<and>
            length nodes' = length nodes \<and> (\<forall>i. i \<notin> {b..<e} \<longrightarrow> nodes' ! i = nodes ! i) \<and>
            (\<forall>k\<in>{b..<e}. \<exists>a. nodes' ! k = Some (B, a) \<and> c \<le> a \<and> node_end S g k a \<le> c') \<and>
            c \<le> c' \<and> c' \<le> c + int (sum (node_weight S g) {b..<e})"
proof (induction "e - b" arbitrary: b c mem nodes K)
  case 0
  then have "b = e" by simp
  then show ?case using "0.prems" by simp
next
  case (Suc j)
  let ?n = "unat (numNodes g)"
  from Suc.hyps(2) Suc.prems(1) have lt: "b < e" and j: "j = e - Suc b" and le: "Suc b \<le> e" by auto
  have bn: "b < ?n" using lt Suc.prems(2) by simp
  have b32: "b < 2 ^ 32" using bn n32 by simp
  from neighborsSize_valid [OF v bn b32] obtain sz where
    sz: "neighborsSize g (word_of_nat b) = Inr sz" "unat sz = degree g b"
    by (auto simp: degree_def)
  have dg: "sint (ucast sz :: 32 word) = int (degree g b)"
    using sint_ucast_small [of sz] sz(2) d31 bn by simp
  have split: "{b..<e} = insert b {Suc b..<e}" using lt by auto
  have "sum (node_weight S g) {b..<e} = node_weight S g b + sum (node_weight S g) {Suc b..<e}"
    unfolding split by simp
  then have sum: "int (sum (node_weight S g) {b..<e}) =
      int (node_weight S g b) + int (sum (node_weight S g) {Suc b..<e})"
    by (simp only: of_nat_add)
  have nn: "0 \<le> int (sum (node_weight S g) {Suc b..<e})"
    by (rule of_nat_0_le_iff)
  have nn2: "0 < int (sizeof_NodeInfo S)" using sN by simp
  have ne_le: "node_end S g b c + int (sizeof_NodeInfo S) = c + int (node_weight S g b)"
    by (simp add: node_end_def node_weight_def)
  have room_b: "node_end S g b c \<le> int (block_size mem B)"
    using Suc.prems(8) ne_le sum nn nn2 by linarith
  have "0 \<le> int (degree g b) * int (sizeof_EdgeInfo S)" by simp
  then have "c + int (sizeof_NodeInfo S) \<le> int (block_size mem B)"
    using room_b unfolding node_end_def by linarith
  then have ib: "in_block mem (B, c) (sizeof_NodeInfo S)"
    using Suc.prems(6) by (rule in_blockI [rotated])
  let ?mem1 = "mem\<lparr>cells := (cells mem)((B, c) \<mapsto> NodeCell (int (degree g b)))\<rparr>"
  let ?nodes1 = "nodes[b := Some (B, c)]"
  have w: "write_cell mem (B, c) (sizeof_NodeInfo S) (NodeCell (sint (ucast sz :: 32 word))) = Inr ?mem1"
    using ib by (simp add: write_cell_def dg)
  define c1 where "c1 = next_loop (sizeof_NodeInfo S) c (node_end S g b c)"
  have c1: "node_end S g b c \<le> c1" "c1 < node_end S g b c + int (sizeof_NodeInfo S)"
    using next_loop_bounds [OF sN, of c "node_end S g b c"] node_end_gt [OF sN, of c g b]
    by (simp_all add: c1_def)
  have nx: "next_node S ?mem1 (B, c) = Inr (B, c1)"
    by (simp add: next_node_def edgeEnd_def read_numEdges_def edgeBegin_def c1_def node_end_def)
  have bl: "b < length nodes" using lt Suc.prems(3) by simp
  have step: "place_nodes S g (b # [Suc b..<e]) (B, c) mem nodes
            = place_nodes S g [Suc b..<e] (B, c1) ?mem1 ?nodes1"
    using bl by (simp add: sz(1) w nx)
  have bK: "b \<notin> K" using Suc.prems(5) lt by auto
  have p1: "placed S g (insert b K) ?nodes1 ?mem1"
    by (rule placed_insert [OF Suc.prems(4) bK bl Suc.prems(6) sN Suc.prems(7) room_b])
  have cc1: "c \<le> c1" using c1(1) node_end_gt [OF sN, of c g b] by simp
  have below1: "\<forall>k\<in>insert b K. \<forall>a. ?nodes1 ! k = Some (B, a) \<longrightarrow> node_end S g k a \<le> c1"
  proof (intro ballI allI impI)
    fix k a assume k: "k \<in> insert b K" and a: "?nodes1 ! k = Some (B, a)"
    show "node_end S g k a \<le> c1"
    proof (cases "k = b")
      case True
      then show ?thesis using a bl c1(1) by simp
    next
      case False
      then have "k \<in> K" "nodes ! k = Some (B, a)" using k a by auto
      then show ?thesis using Suc.prems(7) cc1 by fastforce
    qed
  qed
  have "c1 + int (sum (node_weight S g) {Suc b..<e}) \<le> int (block_size mem B)"
    using Suc.prems(8) c1(2) ne_le sum by linarith
  then have room1: "c1 + int (sum (node_weight S g) {Suc b..<e}) \<le> int (block_size ?mem1 B)"
    by simp
  have disj1: "insert b K \<inter> {Suc b..<e} = {}" using Suc.prems(5) by auto
  have "0 \<le> c1" using cc1 Suc.prems(6) by simp
  from Suc.hyps(1) [OF j le Suc.prems(2) _ p1 disj1 this below1 room1]
  obtain c' mem' nodes' where r:
    "place_nodes S g [Suc b..<e] (B, c1) ?mem1 ?nodes1 = Inr ((B, c'), mem', nodes')"
    "placed S g (insert b K \<union> {Suc b..<e}) nodes' mem'" "block_size mem' = block_size ?mem1"
    "length nodes' = length ?nodes1" "\<forall>i. i \<notin> {Suc b..<e} \<longrightarrow> nodes' ! i = ?nodes1 ! i"
    "\<forall>k\<in>{Suc b..<e}. \<exists>a. nodes' ! k = Some (B, a) \<and> c1 \<le> a \<and> node_end S g k a \<le> c'"
    "c1 \<le> c'" "c' \<le> c1 + int (sum (node_weight S g) {Suc b..<e})"
    using Suc.prems(3) by auto
  have up: "[b..<e] = b # [Suc b..<e]" using lt by (simp add: upt_conv_Cons)
  have Keq: "insert b K \<union> {Suc b..<e} = K \<union> {b..<e}" using lt by auto
  have nb: "nodes' ! b = Some (B, c)" using r(5) bl by simp
  have in_range: "\<forall>k\<in>{b..<e}. \<exists>a. nodes' ! k = Some (B, a) \<and> c \<le> a \<and> node_end S g k a \<le> c'"
  proof
    fix k assume k: "k \<in> {b..<e}"
    show "\<exists>a. nodes' ! k = Some (B, a) \<and> c \<le> a \<and> node_end S g k a \<le> c'"
    proof (cases "k = b")
      case True
      then show ?thesis using nb c1(1) r(7) by auto
    next
      case False
      then have "k \<in> {Suc b..<e}" using k by auto
      then show ?thesis using r(6) cc1 by fastforce
    qed
  qed
  have frame: "\<forall>i. i \<notin> {b..<e} \<longrightarrow> nodes' ! i = nodes ! i"
  proof (intro allI impI)
    fix i assume i: "i \<notin> {b..<e}"
    then have "i \<notin> {Suc b..<e}" "i \<noteq> b" using lt by auto
    then show "nodes' ! i = nodes ! i" using r(5) by simp
  qed
  have ub: "c' \<le> c + int (sum (node_weight S g) {b..<e})"
    using r(8) c1(2) ne_le sum by linarith
  have r2: "placed S g (K \<union> {b..<e}) nodes' mem'" using r(2) unfolding Keq .
  have r3: "block_size mem' = block_size mem" using r(3) by simp
  have r4: "length nodes' = length nodes" using r(4) by simp
  have cc': "c \<le> c'" using cc1 r(7) by simp
  show ?case
    unfolding up step
    using r(1) r2 r3 r4 frame in_range cc' ub by blast
qed

lemma place_node_edges_ok:
  assumes sE: "0 < sizeof_EdgeInfo S"
  shows "\<forall>d\<in>set nis. unat d < length nodes \<and> nodes ! unat d \<noteq> None \<Longrightarrow> 0 \<le> x \<Longrightarrow>
         x + int (length nis) * int (sizeof_EdgeInfo S) \<le> int (block_size mem B) \<Longrightarrow>
         \<exists>mem'. place_node_edges S nodes nis (B, x) mem = Inr mem' \<and>
            block_size mem' = block_size mem \<and>
            (\<forall>j<length nis. cells mem' (B, x + int j * int (sizeof_EdgeInfo S)) =
                 Some (EdgeCell (the (nodes ! unat (nis ! j))))) \<and>
            (\<forall>p. \<not> (fst p = B \<and> x \<le> snd p \<and> snd p < x + int (length nis) * int (sizeof_EdgeInfo S))
                  \<longrightarrow> cells mem' p = cells mem p)"
proof (induction nis arbitrary: x mem)
  case Nil
  then show ?case by simp
next
  case (Cons ni nis)
  define sE' where "sE' = int (sizeof_EdgeInfo S)"
  define L where "L = int (length nis) * sE'"
  have sEp: "0 < sE'" using sE by (simp add: sE'_def)
  have Lnn: "0 \<le> L" using sEp by (simp add: L_def)
  have len: "int (length (ni # nis)) * sE' = sE' + L"
    by (simp add: L_def distrib_right)
  have room: "x + (sE' + L) \<le> int (block_size mem B)"
    using Cons.prems(3) len by (simp add: sE'_def)
  obtain d where d: "nodes ! unat ni = Some d" "unat ni < length nodes"
    using Cons.prems(1) by auto
  have np: "node_ptr nodes (unat ni) = Inr d" using d by (simp add: node_ptr_def array_get_def)
  let ?mem1 = "mem\<lparr>cells := (cells mem)((B, x) \<mapsto> EdgeCell d)\<rparr>"
  have "x + int (sizeof_EdgeInfo S) \<le> int (block_size mem B)"
    using room Lnn by (simp add: sE'_def)
  then have ib: "in_block mem (B, x) (sizeof_EdgeInfo S)"
    using Cons.prems(2) by (rule in_blockI [rotated])
  have w: "write_cell mem (B, x) (sizeof_EdgeInfo S) (EdgeCell d) = Inr ?mem1"
    using ib by (simp add: write_cell_def)
  have "x + sE' + L \<le> int (block_size mem B)" using room by linarith
  then have room1: "x + int (sizeof_EdgeInfo S) + int (length nis) * int (sizeof_EdgeInfo S)
      \<le> int (block_size ?mem1 B)"
    by (simp add: sE'_def L_def)
  have x1: "0 \<le> x + int (sizeof_EdgeInfo S)" using Cons.prems(2) by simp
  have pre: "\<forall>d\<in>set nis. unat d < length nodes \<and> nodes ! unat d \<noteq> None"
    using Cons.prems(1) by simp
  from Cons.IH [OF pre x1 room1] obtain mem' where r:
    "place_node_edges S nodes nis (B, x + int (sizeof_EdgeInfo S)) ?mem1 = Inr mem'"
    "block_size mem' = block_size ?mem1"
    "\<forall>j<length nis. cells mem' (B, x + int (sizeof_EdgeInfo S) + int j * int (sizeof_EdgeInfo S))
        = Some (EdgeCell (the (nodes ! unat (nis ! j))))"
    "\<forall>p. \<not> (fst p = B \<and> x + int (sizeof_EdgeInfo S) \<le> snd p \<and>
              snd p < x + int (sizeof_EdgeInfo S) + int (length nis) * int (sizeof_EdgeInfo S))
          \<longrightarrow> cells mem' p = cells ?mem1 p"
    by blast
  have "\<not> (fst (B, x) = B \<and> x + int (sizeof_EdgeInfo S) \<le> snd (B, x) \<and>
              snd (B, x) < x + int (sizeof_EdgeInfo S) + int (length nis) * int (sizeof_EdgeInfo S))"
    using sE by simp
  then have "cells mem' (B, x) = cells ?mem1 (B, x)" using r(4) by blast
  then have c0: "cells mem' (B, x) = Some (EdgeCell d)" by simp
  have cj: "\<forall>j<length (ni # nis). cells mem' (B, x + int j * int (sizeof_EdgeInfo S)) =
               Some (EdgeCell (the (nodes ! unat ((ni # nis) ! j))))"
  proof (intro allI impI)
    fix j assume j: "j < length (ni # nis)"
    show "cells mem' (B, x + int j * int (sizeof_EdgeInfo S)) =
        Some (EdgeCell (the (nodes ! unat ((ni # nis) ! j))))"
    proof (cases j)
      case 0
      then show ?thesis using c0 d by simp
    next
      case (Suc i)
      then have "i < length nis" using j by simp
      then have "cells mem' (B, x + int (sizeof_EdgeInfo S) + int i * int (sizeof_EdgeInfo S))
          = Some (EdgeCell (the (nodes ! unat (nis ! i))))"
        using r(3) by simp
      moreover have "x + int (Suc i) * int (sizeof_EdgeInfo S)
          = x + int (sizeof_EdgeInfo S) + int i * int (sizeof_EdgeInfo S)"
        by (simp add: distrib_right)
      moreover have "(ni # nis) ! Suc i = nis ! i" by simp
      ultimately show ?thesis unfolding Suc by (simp only:)
    qed
  qed
  have fr: "\<forall>p. \<not> (fst p = B \<and> x \<le> snd p \<and> snd p < x + int (length (ni # nis)) * int (sizeof_EdgeInfo S))
          \<longrightarrow> cells mem' p = cells mem p"
  proof (intro allI impI)
    fix p assume o: "\<not> (fst p = B \<and> x \<le> snd p \<and> snd p < x + int (length (ni # nis)) * int (sizeof_EdgeInfo S))"
    then have o': "\<not> (fst p = B \<and> x \<le> snd p \<and> snd p < x + (sE' + L))"
      using len by (simp add: sE'_def)
    then have "\<not> (fst p = B \<and> x + sE' \<le> snd p \<and> snd p < x + sE' + L)"
      using sEp by auto
    then have "\<not> (fst p = B \<and> x + int (sizeof_EdgeInfo S) \<le> snd p \<and>
              snd p < x + int (sizeof_EdgeInfo S) + int (length nis) * int (sizeof_EdgeInfo S))"
      unfolding sE'_def L_def .
    then have "cells mem' p = cells ?mem1 p" using r(4) by blast
    moreover have "p \<noteq> (B, x)" using o' sEp Lnn by auto
    ultimately show "cells mem' p = cells mem p" by simp
  qed
  have "place_node_edges S nodes (ni # nis) (B, x) mem = Inr mem'"
    using r(1) by (simp add: np w)
  moreover have "block_size mem' = block_size mem" using r(2) by simp
  ultimately show ?case using cj fr by blast
qed

lemma slot_le: "j < d \<Longrightarrow> 0 < (s::int) \<Longrightarrow> int j * s + s \<le> int d * s"
proof -
  assume j: "j < d" and s: "0 < s"
  have "int (Suc j) \<le> int d" using j by simp
  then have "int (Suc j) * s \<le> int d * s" using s by (intro mult_right_mono) simp_all
  moreover have "int (Suc j) * s = int j * s + s" by (simp add: distrib_right)
  ultimately show ?thesis by simp
qed
lemma placed_at:
  assumes "placed S g K nodes mem" "k \<in> K"
  obtains B a where "nodes ! k = Some (B, a)" "0 \<le> a" "k < length nodes"
    "cells mem (B, a) = Some (NodeCell (int (degree g k)))"
    "node_end S g k a \<le> int (block_size mem B)"
  using assms unfolding placed_def by blast
lemma placed_disjoint:
  assumes "placed S g K nodes mem" "k \<in> K" "k' \<in> K" "k \<noteq> k'"
    "nodes ! k = Some (B, a)" "nodes ! k' = Some (B, a')"
  shows "node_end S g k a \<le> a' \<or> node_end S g k' a' \<le> a"
  using assms unfolding placed_def by blast
lemma place_edges_step:
  assumes sN: "0 < sizeof_NodeInfo S" and sE: "0 < sizeof_EdgeInfo S" and v: "valid_FileGraph g"
    and n32: "unat (numNodes g) < 2 ^ 32"
    and p: "placed S g {..<unat (numNodes g)} nodes mem"
    and k: "k < unat (numNodes g)"
    and D: "\<forall>k'\<in>D. k' < unat (numNodes g) \<and> edges_ok S g nodes mem k'"
  shows "\<exists>n nis mem'. node_ptr nodes k = Inr n \<and> neighbor_ids g (word_of_nat k) = Inr nis \<and>
           place_node_edges S nodes nis (edgeBegin S n) mem = Inr mem' \<and>
           placed S g {..<unat (numNodes g)} nodes mem' \<and> block_size mem' = block_size mem \<and>
           (\<forall>k'\<in>insert k D. k' < unat (numNodes g) \<and> edges_ok S g nodes mem' k')"
proof -
  let ?n = "unat (numNodes g)"
  let ?sN = "int (sizeof_NodeInfo S)" and ?sE = "int (sizeof_EdgeInfo S)"
  have kK: "k \<in> {..<?n}" using k by simp
  from placed_at [OF p kK] obtain B a where a: "nodes ! k = Some (B, a)" "0 \<le> a" "k < length nodes"
    "cells mem (B, a) = Some (NodeCell (int (degree g k)))"
    "node_end S g k a \<le> int (block_size mem B)" by blast
  have np: "node_ptr nodes k = Inr (B, a)" using a(1,3) by (simp add: node_ptr_def array_get_def)
  have k32: "k < 2 ^ 32" using k n32 by simp
  have ni: "neighbor_ids g (word_of_nat k) = Inr (node_dests g k)"
    by (rule neighbor_ids_valid [OF v k k32])
  have dests_ok: "\<forall>d\<in>set (node_dests g k). unat d < length nodes \<and> nodes ! unat d \<noteq> None"
  proof
    fix d assume "d \<in> set (node_dests g k)"
    then have "unat d < ?n" by (rule node_dests_in_range [OF v k])
    then have "unat d \<in> {..<?n}" by simp
    from placed_at [OF p this] obtain B' a' where "nodes ! unat d = Some (B', a')"
      "unat d < length nodes" by blast
    then show "unat d < length nodes \<and> nodes ! unat d \<noteq> None" by simp
  qed
  define x where "x = a + ?sN"
  have x0: "0 \<le> x" using a(2) by (simp add: x_def)
  have xe: "x + int (length (node_dests g k)) * ?sE = node_end S g k a"
    by (simp add: x_def node_end_def degree_def)
  have room: "x + int (length (node_dests g k)) * ?sE \<le> int (block_size mem B)"
    using a(5) xe by simp
  from place_node_edges_ok [OF sE dests_ok x0 room] obtain mem' where r:
    "place_node_edges S nodes (node_dests g k) (B, x) mem = Inr mem'"
    "block_size mem' = block_size mem"
    "\<forall>j<length (node_dests g k). cells mem' (B, x + int j * ?sE) =
        Some (EdgeCell (the (nodes ! unat (node_dests g k ! j))))"
    "\<forall>p. \<not> (fst p = B \<and> x \<le> snd p \<and> snd p < x + int (length (node_dests g k)) * ?sE)
        \<longrightarrow> cells mem' p = cells mem p"
    by blast
  have eb: "edgeBegin S (B, a) = (B, x)" by (simp add: edgeBegin_def x_def)
  have outside: "cells mem' (B', q) = cells mem (B', q)"
    if "B' \<noteq> B \<or> q < x \<or> node_end S g k a \<le> q" for B' q
  proof -
    have "\<not> (fst (B', q) = B \<and> x \<le> snd (B', q) \<and> snd (B', q) < x + int (length (node_dests g k)) * ?sE)"
      using that xe by auto
    then show ?thesis using r(4) by blast
  qed
  have ax: "a < x" using sN by (simp add: x_def)
  have other: "B' \<noteq> B \<or> node_end S g k' a' \<le> a \<or> node_end S g k a \<le> a'"
    if "k' < ?n" "k' \<noteq> k" "nodes ! k' = Some (B', a')" for k' B' a'
  proof (cases "B' = B")
    case True
    have "k' \<in> {..<?n}" using that(1) by simp
    from placed_disjoint [OF p kK this _ a(1)] that(2,3) True
    show ?thesis by auto
  qed simp
  have p': "placed S g {..<?n} nodes mem'"
    unfolding placed_def
  proof (intro conjI ballI allI impI)
    fix k' assume k': "k' \<in> {..<?n}"
    from placed_at [OF p k'] obtain B' a' where a': "nodes ! k' = Some (B', a')" "0 \<le> a'"
      "k' < length nodes" "cells mem (B', a') = Some (NodeCell (int (degree g k')))"
      "node_end S g k' a' \<le> int (block_size mem B')" by blast
    show "k' < length nodes" by (rule a'(3))
    have "B' \<noteq> B \<or> a' < x \<or> node_end S g k a \<le> a'"
    proof (cases "k' = k")
      case True
      then show ?thesis using a(1) a'(1) ax by simp
    next
      case False
      from other [OF _ False a'(1)] k' node_end_gt [OF sN, of a' g k'] ax
      show ?thesis by auto
    qed
    then have "cells mem' (B', a') = cells mem (B', a')" by (rule outside)
    then show "\<exists>B a. nodes ! k' = Some (B, a) \<and> 0 \<le> a \<and>
           cells mem' (B, a) = Some (NodeCell (int (degree g k'))) \<and>
           node_end S g k' a \<le> int (block_size mem' B)"
      using a' r(2) by simp
  next
    fix k1 k2 B' a1 a2
    assume "k1 \<in> {..<?n}" "k2 \<in> {..<?n}" "k1 \<noteq> k2" "nodes ! k1 = Some (B', a1)" "nodes ! k2 = Some (B', a2)"
    then show "node_end S g k1 a1 \<le> a2 \<or> node_end S g k2 a2 \<le> a1"
      by (rule placed_disjoint [OF p])
  qed
  have ek: "edges_ok S g nodes mem' k"
    unfolding edges_ok_def
  proof (intro exI conjI allI impI)
    show "nodes ! k = Some (B, a)" by (rule a(1))
    fix j assume "j < degree g k"
    then have "cells mem' (B, x + int j * ?sE) = Some (EdgeCell (the (nodes ! unat (node_dests g k ! j))))"
      using r(3) by (simp add: degree_def)
    then show "cells mem' (B, a + ?sN + int j * ?sE) = Some (EdgeCell (the (nodes ! unat (node_dests g k ! j))))"
      by (simp add: x_def)
  qed
  have eD: "k' < ?n \<and> edges_ok S g nodes mem' k'" if "k' \<in> insert k D" for k'
  proof (cases "k' = k")
    case True
    then show ?thesis using ek k by simp
  next
    case False
    then have kD: "k' \<in> D" using that by simp
    then have k'n: "k' < ?n" and e: "edges_ok S g nodes mem k'" using D by auto
    from e obtain B' a' where a': "nodes ! k' = Some (B', a')"
      "\<forall>j<degree g k'. cells mem (B', a' + ?sN + int j * ?sE) =
          Some (EdgeCell (the (nodes ! unat (node_dests g k' ! j))))"
      unfolding edges_ok_def by blast
    have o: "B' \<noteq> B \<or> node_end S g k' a' \<le> a \<or> node_end S g k a \<le> a'"
      by (rule other [OF k'n False a'(1)])
    have "cells mem' (B', a' + ?sN + int j * ?sE) = cells mem (B', a' + ?sN + int j * ?sE)"
      if j: "j < degree g k'" for j
    proof -
      have sEp: "0 < ?sE" using sE by simp
      have "int j * ?sE + ?sE \<le> int (degree g k') * ?sE" by (rule slot_le [OF j sEp])
      then have lt: "a' + ?sN + int j * ?sE < node_end S g k' a'"
        unfolding node_end_def using sEp by linarith
      have "0 \<le> int j * ?sE" by simp
      then have ge: "a' \<le> a' + ?sN + int j * ?sE" by linarith
      have "B' \<noteq> B \<or> a' + ?sN + int j * ?sE < x \<or> node_end S g k a \<le> a' + ?sN + int j * ?sE"
        using o lt ge ax by linarith
      then show ?thesis by (rule outside)
    qed
    then have "edges_ok S g nodes mem' k'"
      unfolding edges_ok_def using a' by auto
    then show ?thesis using k'n by simp
  qed
  show ?thesis
    using np ni r(1) p' r(2) eD unfolding eb [symmetric] by blast
qed
lemma place_edges_ok:
  assumes sN: "0 < sizeof_NodeInfo S" and sE: "0 < sizeof_EdgeInfo S" and v: "valid_FileGraph g"
    and n32: "unat (numNodes g) < 2 ^ 32"
  shows "b \<le> e \<Longrightarrow> e \<le> unat (numNodes g) \<Longrightarrow>
         placed S g {..<unat (numNodes g)} nodes mem \<Longrightarrow>
         (\<forall>k'\<in>D. k' < unat (numNodes g) \<and> edges_ok S g nodes mem k') \<Longrightarrow>
         \<exists>mem'. place_edges S g nodes [b..<e] mem = Inr mem' \<and>
            placed S g {..<unat (numNodes g)} nodes mem' \<and> block_size mem' = block_size mem \<and>
            (\<forall>k'\<in>D \<union> {b..<e}. k' < unat (numNodes g) \<and> edges_ok S g nodes mem' k')"
proof (induction "e - b" arbitrary: b mem D)
  case 0
  then have "b = e" by simp
  then show ?case using "0.prems" by simp
next
  case (Suc j)
  from Suc.hyps(2) have lt: "b < e" and j: "j = e - Suc b" and le: "Suc b \<le> e" by auto
  have bn: "b < unat (numNodes g)" using lt Suc.prems(2) by simp
  from place_edges_step [OF sN sE v n32 Suc.prems(3) bn Suc.prems(4)]
  obtain n nis mem1 where s: "node_ptr nodes b = Inr n" "neighbor_ids g (word_of_nat b) = Inr nis"
    "place_node_edges S nodes nis (edgeBegin S n) mem = Inr mem1"
    "placed S g {..<unat (numNodes g)} nodes mem1" "block_size mem1 = block_size mem"
    "\<forall>k'\<in>insert b D. k' < unat (numNodes g) \<and> edges_ok S g nodes mem1 k'"
    by blast
  from Suc.hyps(1) [OF j le Suc.prems(2) s(4) s(6)] obtain mem' where r:
    "place_edges S g nodes [Suc b..<e] mem1 = Inr mem'"
    "placed S g {..<unat (numNodes g)} nodes mem'" "block_size mem' = block_size mem1"
    "\<forall>k'\<in>insert b D \<union> {Suc b..<e}. k' < unat (numNodes g) \<and> edges_ok S g nodes mem' k'"
    by blast
  have up: "[b..<e] = b # [Suc b..<e]" using lt by (simp add: upt_conv_Cons)
  have Keq: "insert b D \<union> {Suc b..<e} = D \<union> {b..<e}" using lt by auto
  have "place_edges S g nodes [b..<e] mem = Inr mem'"
    unfolding up using r(1) by (simp add: s(1,2,3))
  moreover have "block_size mem' = block_size mem" using r(3) s(5) by simp
  ultimately show ?case using r(2) r(4) unfolding Keq by blast
qed

lemma ptr_edges_loop_ok:
  assumes sE: "0 < sizeof_EdgeInfo S" and x0: "0 \<le> x"
    and room: "x + int d * int (sizeof_EdgeInfo S) \<le> int (block_size mem B)"
    and c: "\<forall>i<d. cells mem (B, x + int i * int (sizeof_EdgeInfo S)) = Some (EdgeCell (dst i))"
  shows "j \<le> d \<Longrightarrow>
         ptr_edges_loop S mem (B, x + int j * int (sizeof_EdgeInfo S))
           (B, x + int d * int (sizeof_EdgeInfo S)) = Inr (map dst [j..<d])"
proof (induction "d - j" arbitrary: j)
  case 0
  then have "j = d" by simp
  then show ?case by (subst ptr_edges_loop.simps) simp
next
  case (Suc m)
  let ?sE = "int (sizeof_EdgeInfo S)"
  from Suc.hyps(2) have lt: "j < d" and m: "m = d - Suc j" and le: "Suc j \<le> d" by auto
  have sEp: "0 < ?sE" using sE by simp
  have sl: "int j * ?sE + ?sE \<le> int d * ?sE" by (rule slot_le [OF lt sEp])
  have ne: "(B, x + int j * ?sE) \<noteq> (B, x + int d * ?sE)" using sl sEp by auto
  have "0 \<le> int j * ?sE" by simp
  then have p0: "0 \<le> x + int j * ?sE" using x0 by linarith
  have "x + int j * ?sE + ?sE \<le> int (block_size mem B)" using sl room by linarith
  then have ib: "in_block mem (B, x + int j * ?sE) (sizeof_EdgeInfo S)"
    using p0 by (rule in_blockI [rotated])
  have rd: "read_dst S mem (B, x + int j * ?sE) = Inr (dst j)"
    using ib c lt by (simp add: read_dst_def)
  have nx: "x + int j * ?sE + ?sE = x + int (Suc j) * ?sE" by (simp add: distrib_right)
  have ih: "ptr_edges_loop S mem (B, x + int (Suc j) * ?sE) (B, x + int d * ?sE) = Inr (map dst [Suc j..<d])"
    by (rule Suc.hyps(1) [OF m le])
  have sE0: "sizeof_EdgeInfo S \<noteq> 0" using sE by simp
  have "ptr_edges_loop S mem (B, x + int j * ?sE) (B, x + int d * ?sE) =
      (case ptr_edges_loop S mem (B, x + int j * ?sE + ?sE) (B, x + int d * ?sE) of
         Inl f \<Rightarrow> Inl f | Inr ds \<Rightarrow> Inr (dst j # ds))"
    by (subst ptr_edges_loop.simps) (simp only: ne sE0 rd if_False sum.case fst_conv snd_conv)
  also have "\<dots> = Inr (dst j # map dst [Suc j..<d])" unfolding nx ih by simp
  also have "dst j # map dst [Suc j..<d] = map dst [j..<d]" using lt by (simp add: upt_conv_Cons)
  finally show ?case .
qed
lemma ptr_edge_dsts_ok:
  assumes sN: "0 < sizeof_NodeInfo S" and sE: "0 < sizeof_EdgeInfo S"
    and p: "placed S g K nodes mem" and k: "k \<in> K" and e: "edges_ok S g nodes mem k"
  shows "\<exists>n. nodes ! k = Some n \<and>
           ptr_edge_dsts S mem n = Inr (map (\<lambda>d. the (nodes ! unat d)) (node_dests g k))"
proof -
  let ?sN = "int (sizeof_NodeInfo S)" and ?sE = "int (sizeof_EdgeInfo S)"
  from placed_at [OF p k] obtain B a where a: "nodes ! k = Some (B, a)" "0 \<le> a" "k < length nodes"
    "cells mem (B, a) = Some (NodeCell (int (degree g k)))"
    "node_end S g k a \<le> int (block_size mem B)" by blast
  from e a(1) have c: "\<forall>j<degree g k. cells mem (B, a + ?sN + int j * ?sE) =
          Some (EdgeCell (the (nodes ! unat (node_dests g k ! j))))"
    unfolding edges_ok_def by simp
  have x0: "0 \<le> a + ?sN" using a(2) by simp
  have room: "a + ?sN + int (degree g k) * ?sE \<le> int (block_size mem B)"
    using a(5) by (simp add: node_end_def)
  have ee: "edgeEnd S mem (B, a) = Inr (B, a + ?sN + int (degree g k) * ?sE)"
    using a(4) by (simp add: edgeEnd_def read_numEdges_def edgeBegin_def)
  have eb: "edgeBegin S (B, a) = (B, a + ?sN + int 0 * ?sE)" by (simp add: edgeBegin_def)
  have "ptr_edges_loop S mem (B, a + ?sN + int 0 * ?sE) (B, a + ?sN + int (degree g k) * ?sE)
      = Inr (map (\<lambda>j. the (nodes ! unat (node_dests g k ! j))) [0..<degree g k])"
    by (rule ptr_edges_loop_ok [OF sE x0 room c]) simp
  moreover have "map (\<lambda>j. the (nodes ! unat (node_dests g k ! j))) [0..<degree g k]
      = map (\<lambda>d. the (nodes ! unat d)) (node_dests g k)"
    unfolding degree_def by (rule nth_equalityI) simp_all
  ultimately have "ptr_edge_dsts S mem (B, a) = Inr (map (\<lambda>d. the (nodes ! unat d)) (node_dests g k))"
    unfolding ptr_edge_dsts_def ee eb by simp
  then show ?thesis using a(1) by simp
qed
lemma placed_inj:
  assumes sN: "0 < sizeof_NodeInfo S" and p: "placed S g K nodes mem"
    and k: "k \<in> K" "k' \<in> K" and eq: "nodes ! k = nodes ! k'"
  shows "k = k'"
proof (rule ccontr)
  assume ne: "k \<noteq> k'"
  from placed_at [OF p k(1)] obtain B a where a: "nodes ! k = Some (B, a)" by blast
  then have a': "nodes ! k' = Some (B, a)" using eq by simp
  from placed_disjoint [OF p k ne a a'] node_end_gt [OF sN, of a g k] node_end_gt [OF sN, of a g k']
  show False by auto
qed

lemma edge_start_mono2:
  assumes v: "valid_FileGraph g"
  shows "b \<le> e \<Longrightarrow> e \<le> unat (numNodes g) \<Longrightarrow> edge_start g b \<le> edge_start g e"
proof (induction e)
  case 0
  then show ?case by simp
next
  case (Suc e)
  show ?case
  proof (cases "b = Suc e")
    case True
    then show ?thesis by simp
  next
    case False
    then have "b \<le> e" "e \<le> unat (numNodes g)" "e < unat (numNodes g)" using Suc.prems by auto
    then show ?thesis using Suc.IH edge_start_mono [OF v, of e] by linarith
  qed
qed
lemma sum_degree:
  assumes v: "valid_FileGraph g"
  shows "b \<le> e \<Longrightarrow> e \<le> unat (numNodes g) \<Longrightarrow>
         sum (degree g) {b..<e} + edge_start g b = edge_start g e"
proof (induction e)
  case 0
  then show ?case by simp
next
  case (Suc e)
  show ?case
  proof (cases "b = Suc e")
    case True
    then show ?thesis by simp
  next
    case False
    then have be: "b \<le> e" and en: "e \<le> unat (numNodes g)" and en': "e < unat (numNodes g)"
      using Suc.prems by auto
    have ih: "sum (degree g) {b..<e} + edge_start g b = edge_start g e" by (rule Suc.IH [OF be en])
    have d: "degree g e = edge_start g (Suc e) - edge_start g e"
      unfolding degree_def by (rule node_dests_alt(2) [OF v en'])
    have m: "edge_start g e \<le> edge_start g (Suc e)" by (rule edge_start_mono [OF v en'])
    have "sum (degree g) {b..<Suc e} = sum (degree g) {b..<e} + degree g e"
      using be by simp
    then show ?thesis using ih d m by linarith
  qed
qed
lemma sum_node_weight:
  "sum (node_weight S g) {b..<e} =
     2 * sizeof_NodeInfo S * (e - b) + sizeof_EdgeInfo S * sum (degree g) {b..<e}"
proof -
  have "sum (node_weight S g) {b..<e} =
      (\<Sum>k = b..<e. 2 * sizeof_NodeInfo S) + (\<Sum>k = b..<e. sizeof_EdgeInfo S * degree g k)"
    unfolding node_weight_def by (simp add: sum.distrib mult.commute)
  also have "(\<Sum>k = b..<e. 2 * sizeof_NodeInfo S) = 2 * sizeof_NodeInfo S * (e - b)" by simp
  also have "(\<Sum>k = b..<e. sizeof_EdgeInfo S * degree g k) = sizeof_EdgeInfo S * sum (degree g) {b..<e}"
    by (simp add: sum_distrib_left)
  finally show ?thesis .
qed
lemma placed_empty: "placed S g {} nodes mem"
  by (simp add: placed_def)
lemma LC_Linear_build_ok:
  assumes sN: "0 < sizeof_NodeInfo S" and sE: "0 < sizeof_EdgeInfo S" and v: "valid_FileGraph g"
    and n32: "unat (numNodes g) < 2 ^ 32" and e32: "unat (numEdges g) < 2 ^ 32"
    and d31: "\<forall>k<unat (numNodes g). degree g k < 2 ^ 31"
    and fit: "sizeof_NodeInfo S * unat (numNodes g) * 2 + sizeof_EdgeInfo S * unat (numEdges g) < 2 ^ 64"
  shows "\<exists>G. LC_Linear_build S g = Inr G \<and> length (lin_nodes G) = unat (numNodes g) \<and>
           placed S g {..<unat (numNodes g)} (lin_nodes G) (lin_mem G) \<and>
           (\<forall>k<unat (numNodes g). edges_ok S g (lin_nodes G) (lin_mem G) k)"
proof -
  let ?n = "unat (numNodes g)" and ?E = "unat (numEdges g)"
  have nn: "unat (ucast (size_FileGraph g) :: 64 word) = ?n"
    unfolding size_FileGraph_def by (rule ucast_size_bounded [OF n32])
  have ne: "unat (ucast (sizeEdges g) :: 64 word) = ?E"
    unfolding sizeEdges_def by (rule ucast_size_bounded [OF e32])
  define mem where "mem = alloc_block empty_memory 0
      ((sizeof_NodeInfo S * ?n * 2 + sizeof_EdgeInfo S * ?E) mod 2 ^ 64)"
  define nodes :: "ptr option list" where "nodes = replicate ?n None"
  have bs: "block_size mem 0 = sizeof_NodeInfo S * ?n * 2 + sizeof_EdgeInfo S * ?E"
    using fit by (simp add: mem_def alloc_block_def)
  have "sum (degree g) {0..<?n} + edge_start g 0 = edge_start g ?n"
    by (rule sum_degree [OF v]) simp_all
  then have sd: "sum (degree g) {0..<?n} = ?E"
    using edge_start_last [OF v] by (simp add: edge_start_0)
  have sw: "sum (node_weight S g) {0..<?n} = block_size mem 0"
    unfolding sum_node_weight sd bs by simp
  have room: "0 + int (sum (node_weight S g) {0..<?n}) \<le> int (block_size mem 0)"
    unfolding sw by simp
  have ln: "?n \<le> length nodes" by (simp add: nodes_def)
  have below: "\<forall>k\<in>{}. \<forall>a. nodes ! k = Some (0, a) \<longrightarrow> node_end S g k a \<le> 0" by simp
  have dj: "{} \<inter> {0..<?n} = {}" by simp
  from place_nodes_ok [OF sN v n32 d31 _ _ ln placed_empty dj _ below room]
  obtain c' mem1 nodes1 where r:
    "place_nodes S g [0..<?n] (0, 0) mem nodes = Inr ((0, c'), mem1, nodes1)"
    "placed S g ({} \<union> {0..<?n}) nodes1 mem1" "block_size mem1 = block_size mem"
    "length nodes1 = length nodes"
    by auto
  have K: "{} \<union> {0..<?n} = {..<?n}" by auto
  have p1: "placed S g {..<?n} nodes1 mem1" using r(2) unfolding K .
  have D0: "\<forall>k'\<in>{}. k' < ?n \<and> edges_ok S g nodes1 mem1 k'" by simp
  from place_edges_ok [OF sN sE v n32 _ _ p1 D0, of 0 ?n]
  obtain mem2 where q: "place_edges S g nodes1 [0..<?n] mem1 = Inr mem2"
    "placed S g {..<?n} nodes1 mem2"
    "\<forall>k'\<in>{} \<union> {0..<?n}. k' < ?n \<and> edges_ok S g nodes1 mem2 k'"
    by auto
  have "LC_Linear_build S g = Inr \<lparr>lin_mem = mem2, lin_nodes = nodes1,
      lin_numNodes = ucast (size_FileGraph g), lin_numEdges = ucast (sizeEdges g)\<rparr>"
    unfolding LC_Linear_build_def Let_def nn ne
    using r(1) q(1) unfolding mem_def nodes_def by simp
  moreover have "length nodes1 = ?n" using r(4) by (simp add: nodes_def)
  moreover have "\<forall>k<?n. edges_ok S g nodes1 mem2 k" using q(3) by simp
  ultimately show ?thesis using q(2) by simp
qed

text \<open>
  \<open>distribute\<close> and the two passes of \<open>LC_Linear2_Graph\<close>.
\<close>

lemma degree_edge_start:
  assumes "valid_FileGraph g" "k < unat (numNodes g)"
  shows "edge_start g k + degree g k = edge_start g (Suc k)"
  using node_dests_alt(2) [OF assms] edge_start_mono [OF assms] by (simp add: degree_def)
lemma distribute_scan_ok:
  assumes v: "valid_FileGraph g" and n32: "unat (numNodes g) < 2 ^ 32"
  shows "i \<le> unat (numNodes g) \<Longrightarrow>
         \<exists>brk i' cs'. distribute_scan S g bound [i..<unat (numNodes g)] cs nn ne =
             Inr (brk, [i'..<unat (numNodes g)], cs', nn + (i' - i),
                  ne + (edge_start g i' - edge_start g i)) \<and>
           i \<le> i' \<and> i' \<le> unat (numNodes g) \<and> (\<not> brk \<longrightarrow> i' = unat (numNodes g))"
proof (induction "unat (numNodes g) - i" arbitrary: i cs nn ne)
  case 0
  then have "i = unat (numNodes g)" by simp
  then show ?case by (intro exI [of _ False] exI [of _ i] exI [of _ cs]) simp
next
  case (Suc m)
  let ?n = "unat (numNodes g)"
  from Suc.hyps(2) have lt: "i < ?n" and m: "m = ?n - Suc i" and le: "Suc i \<le> ?n" by auto
  have up: "[i..<?n] = i # [Suc i..<?n]" using lt by (simp add: upt_conv_Cons)
  show ?case
  proof (cases "bound \<le> cs")
    case True
    then have "distribute_scan S g bound [i..<?n] cs nn ne = Inr (True, [i..<?n], cs, nn, ne)"
      unfolding up by simp
    then show ?thesis using lt by (intro exI [of _ True] exI [of _ i] exI [of _ cs]) simp
  next
    case False
    have i32: "i < 2 ^ 32" using lt n32 by simp
    from neighborsSize_valid [OF v lt i32] obtain sz where
      sz: "neighborsSize g (word_of_nat i) = Inr sz" "unat sz = degree g i"
      by (auto simp: degree_def)
    define cs1 where "cs1 = (cs + sizeof_NodeInfo S + sizeof_EdgeInfo S * degree g i) mod 2 ^ 64"
    have step: "distribute_scan S g bound [i..<?n] cs nn ne =
        distribute_scan S g bound [Suc i..<?n] cs1 (nn + 1) (ne + degree g i)"
      unfolding up using False by (simp add: sz cs1_def)
    from Suc.hyps(1) [OF m le, of cs1 "nn + 1" "ne + degree g i"]
    obtain brk i' cs' where r:
      "distribute_scan S g bound [Suc i..<?n] cs1 (nn + 1) (ne + degree g i) =
         Inr (brk, [i'..<?n], cs', nn + 1 + (i' - Suc i),
              ne + degree g i + (edge_start g i' - edge_start g (Suc i)))"
      "Suc i \<le> i'" "i' \<le> ?n" "\<not> brk \<longrightarrow> i' = ?n"
      by blast
    have a: "nn + 1 + (i' - Suc i) = nn + (i' - i)" using r(2) by simp
    have mono: "edge_start g (Suc i) \<le> edge_start g i'"
      by (rule edge_start_mono2 [OF v r(2) r(3)])
    have b: "ne + degree g i + (edge_start g i' - edge_start g (Suc i)) =
        ne + (edge_start g i' - edge_start g i)"
      using degree_edge_start [OF v lt] mono by simp
    have "distribute_scan S g bound [i..<?n] cs nn ne =
        Inr (brk, [i'..<?n], cs', nn + (i' - i), ne + (edge_start g i' - edge_start g i))"
      unfolding step r(1) a b ..
    moreover have "i \<le> i'" using r(2) by simp
    ultimately show ?thesis using r(3,4) by blast
  qed
qed

lemma dinfo_ok_set:
  assumes ok: "dinfo_ok g t l dinfo" and t: "t < length dinfo" and l: "l \<le> i"
  shows "dinfo_ok g (Suc t) i (dinfo[t := \<lparr>d_numNodes = i - l,
           d_numEdges = edge_start g i - edge_start g l, d_begin = l, d_end = i\<rparr>])"
proof -
  define d where "d = \<lparr>d_numNodes = i - l, d_numEdges = edge_start g i - edge_start g l,
      d_begin = l, d_end = i\<rparr>"
  define dinfo' where "dinfo' = dinfo[t := d]"
  have at_t: "dinfo' ! t = d" using t by (simp add: dinfo'_def)
  have other: "dinfo' ! tid = dinfo ! tid" if "tid \<noteq> t" for tid using that by (simp add: dinfo'_def)
  have len: "length dinfo' = length dinfo" by (simp add: dinfo'_def)
  have old: "d_begin (dinfo ! tid) \<le> d_end (dinfo ! tid) \<and> d_end (dinfo ! tid) \<le> l \<and>
        d_numNodes (dinfo ! tid) = d_end (dinfo ! tid) - d_begin (dinfo ! tid) \<and>
        d_numEdges (dinfo ! tid) =
          edge_start g (d_end (dinfo ! tid)) - edge_start g (d_begin (dinfo ! tid))"
    if "tid < t" for tid using ok that unfolding dinfo_ok_def by blast
  have d_fields: "d_begin d = l" "d_end d = i" "d_numNodes d = i - l"
    "d_numEdges d = edge_start g i - edge_start g l" by (simp_all add: d_def)
  have p1: "Suc t \<le> length dinfo'" using t len by simp
  have p2: "\<forall>tid<length dinfo'. Suc t \<le> tid \<longrightarrow> dinfo' ! tid = DistributeInfo_zero"
  proof (intro allI impI)
    fix tid assume a: "tid < length dinfo'" "Suc t \<le> tid"
    then have "tid \<noteq> t" "t \<le> tid" "tid < length dinfo" using len by auto
    then show "dinfo' ! tid = DistributeInfo_zero" using ok other unfolding dinfo_ok_def by simp
  qed
  have p3: "\<forall>tid<Suc t. d_begin (dinfo' ! tid) \<le> d_end (dinfo' ! tid) \<and> d_end (dinfo' ! tid) \<le> i \<and>
        d_numNodes (dinfo' ! tid) = d_end (dinfo' ! tid) - d_begin (dinfo' ! tid) \<and>
        d_numEdges (dinfo' ! tid) =
          edge_start g (d_end (dinfo' ! tid)) - edge_start g (d_begin (dinfo' ! tid))"
  proof (intro allI impI)
    fix tid assume a: "tid < Suc t"
    show "d_begin (dinfo' ! tid) \<le> d_end (dinfo' ! tid) \<and> d_end (dinfo' ! tid) \<le> i \<and>
        d_numNodes (dinfo' ! tid) = d_end (dinfo' ! tid) - d_begin (dinfo' ! tid) \<and>
        d_numEdges (dinfo' ! tid) =
          edge_start g (d_end (dinfo' ! tid)) - edge_start g (d_begin (dinfo' ! tid))"
    proof (cases "tid = t")
      case True
      then show ?thesis using l by (simp add: at_t d_fields)
    next
      case False
      then have "tid < t" using a by simp
      from old [OF this] l show ?thesis by (simp add: other [OF False])
    qed
  qed
  have p4: "\<forall>k<i. \<exists>tid<Suc t. d_begin (dinfo' ! tid) \<le> k \<and> k < d_end (dinfo' ! tid)"
  proof (intro allI impI)
    fix k assume k: "k < i"
    show "\<exists>tid<Suc t. d_begin (dinfo' ! tid) \<le> k \<and> k < d_end (dinfo' ! tid)"
    proof (cases "k < l")
      case True
      then obtain tid where tid: "tid < t" "d_begin (dinfo ! tid) \<le> k" "k < d_end (dinfo ! tid)"
        using ok unfolding dinfo_ok_def by blast
      then have "tid \<noteq> t" by simp
      then show ?thesis using tid other by (intro exI [of _ tid]) simp
    next
      case False
      then show ?thesis using k by (intro exI [of _ t]) (simp add: at_t d_fields)
    qed
  qed
  have p5: "\<forall>t1<Suc t. \<forall>t2<Suc t. t1 \<noteq> t2 \<longrightarrow>
        d_end (dinfo' ! t1) \<le> d_begin (dinfo' ! t2) \<or> d_end (dinfo' ! t2) \<le> d_begin (dinfo' ! t1)"
  proof (intro allI impI)
    fix t1 t2 assume a: "t1 < Suc t" "t2 < Suc t" "t1 \<noteq> t2"
    show "d_end (dinfo' ! t1) \<le> d_begin (dinfo' ! t2) \<or> d_end (dinfo' ! t2) \<le> d_begin (dinfo' ! t1)"
    proof (cases "t1 = t")
      case True
      then have "t2 < t" "t2 \<noteq> t" using a by auto
      then show ?thesis using old [of t2] True by (simp add: at_t d_fields other)
    next
      case f1: False
      then have t1: "t1 < t" using a by simp
      show ?thesis
      proof (cases "t2 = t")
        case True
        then show ?thesis using old [OF t1] f1 by (simp add: at_t d_fields other)
      next
        case False
        then have "t2 < t" using a by simp
        then show ?thesis using ok t1 a(3) f1 False unfolding dinfo_ok_def by (simp add: other)
      qed
    qed
  qed
  show ?thesis
    unfolding dinfo_ok_def d_def [symmetric] dinfo'_def [symmetric]
    using p1 p2 p3 p4 p5 by blast
qed
lemma dinfo_ok_skip:
  assumes ok: "dinfo_ok g t l dinfo" and t: "t < length dinfo"
  shows "dinfo_ok g (Suc t) l dinfo"
proof -
  have z: "dinfo ! t = DistributeInfo_zero" using ok t unfolding dinfo_ok_def by simp
  have zf: "d_begin (dinfo ! t) = 0" "d_end (dinfo ! t) = 0" "d_numNodes (dinfo ! t) = 0"
    "d_numEdges (dinfo ! t) = 0" by (simp_all add: z DistributeInfo_zero_def)
  have old: "d_begin (dinfo ! tid) \<le> d_end (dinfo ! tid) \<and> d_end (dinfo ! tid) \<le> l \<and>
        d_numNodes (dinfo ! tid) = d_end (dinfo ! tid) - d_begin (dinfo ! tid) \<and>
        d_numEdges (dinfo ! tid) =
          edge_start g (d_end (dinfo ! tid)) - edge_start g (d_begin (dinfo ! tid))"
    if "tid < t" for tid using ok that unfolding dinfo_ok_def by blast
  have p1: "Suc t \<le> length dinfo" using t by simp
  have p2: "\<forall>tid<length dinfo. Suc t \<le> tid \<longrightarrow> dinfo ! tid = DistributeInfo_zero"
    using ok unfolding dinfo_ok_def by simp
  have p3: "\<forall>tid<Suc t. d_begin (dinfo ! tid) \<le> d_end (dinfo ! tid) \<and> d_end (dinfo ! tid) \<le> l \<and>
        d_numNodes (dinfo ! tid) = d_end (dinfo ! tid) - d_begin (dinfo ! tid) \<and>
        d_numEdges (dinfo ! tid) =
          edge_start g (d_end (dinfo ! tid)) - edge_start g (d_begin (dinfo ! tid))"
  proof (intro allI impI)
    fix tid assume a: "tid < Suc t"
    show "d_begin (dinfo ! tid) \<le> d_end (dinfo ! tid) \<and> d_end (dinfo ! tid) \<le> l \<and>
        d_numNodes (dinfo ! tid) = d_end (dinfo ! tid) - d_begin (dinfo ! tid) \<and>
        d_numEdges (dinfo ! tid) =
          edge_start g (d_end (dinfo ! tid)) - edge_start g (d_begin (dinfo ! tid))"
    proof (cases "tid = t")
      case True
      then show ?thesis by (simp add: zf edge_start_0)
    next
      case False
      then have "tid < t" using a by simp
      then show ?thesis by (rule old)
    qed
  qed
  have p4: "\<forall>k<l. \<exists>tid<Suc t. d_begin (dinfo ! tid) \<le> k \<and> k < d_end (dinfo ! tid)"
  proof (intro allI impI)
    fix k assume "k < l"
    then obtain tid where "tid < t" "d_begin (dinfo ! tid) \<le> k" "k < d_end (dinfo ! tid)"
      using ok unfolding dinfo_ok_def by blast
    then show "\<exists>tid<Suc t. d_begin (dinfo ! tid) \<le> k \<and> k < d_end (dinfo ! tid)"
      by (intro exI [of _ tid]) simp
  qed
  have p5: "\<forall>t1<Suc t. \<forall>t2<Suc t. t1 \<noteq> t2 \<longrightarrow>
        d_end (dinfo ! t1) \<le> d_begin (dinfo ! t2) \<or> d_end (dinfo ! t2) \<le> d_begin (dinfo ! t1)"
  proof (intro allI impI)
    fix t1 t2 assume a: "t1 < Suc t" "t2 < Suc t" "t1 \<noteq> t2"
    show "d_end (dinfo ! t1) \<le> d_begin (dinfo ! t2) \<or> d_end (dinfo ! t2) \<le> d_begin (dinfo ! t1)"
    proof (cases "t1 = t \<or> t2 = t")
      case True
      then show ?thesis by (auto simp: zf)
    next
      case False
      then have "t1 < t" "t2 < t" using a by auto
      then show ?thesis using ok a(3) unfolding dinfo_ok_def by simp
    qed
  qed
  show ?thesis unfolding dinfo_ok_def using p1 p2 p3 p4 p5 by blast
qed
lemma dinfo_ok_init: "dinfo_ok g 0 0 (replicate num DistributeInfo_zero)"
  by (simp add: dinfo_ok_def)

lemma distribute_threads_ok:
  assumes v: "valid_FileGraph g" and n32: "unat (numNodes g) < 2 ^ 32"
  shows "t \<le> m \<Longrightarrow> m \<le> length (ds_dinfo st) \<Longrightarrow> dist_inv g t st \<Longrightarrow>
         \<exists>st'. distribute_threads S g (unat (numNodes g)) bs [t..<m] st = Inr st' \<and>
            dist_inv g m st' \<and> length (ds_dinfo st') = length (ds_dinfo st)"
proof (induction "m - t" arbitrary: t st)
  case 0
  then have "t = m" by simp
  then show ?case using "0.prems"(3) by simp
next
  case (Suc j)
  let ?n = "unat (numNodes g)"
  from Suc.hyps(2) have lt: "t < m" and j: "j = m - Suc t" and le: "Suc t \<le> m" by auto
  have tl: "t < length (ds_dinfo st)" using lt Suc.prems(2) by simp
  have up: "[t..<m] = t # [Suc t..<m]" using lt by (simp add: upt_conv_Cons)
  from Suc.prems(3) obtain i where i: "i \<le> ?n" "ds_last st \<le> i" "ds_rest st = [i..<?n]"
    "ds_nnodes st = i - ds_last st"
    "ds_nedges st = edge_start g i - edge_start g (ds_last st)"
    "ds_runningNodes st = ds_last st" "ds_runningEdges st = edge_start g (ds_last st)"
    "dinfo_ok g t (ds_last st) (ds_dinfo st)"
    unfolding dist_inv_def by blast
  define l where "l = ds_last st"
  from distribute_scan_ok [OF v n32 i(1), of S "((t + 1) * bs) mod 2 ^ 64" "ds_curSize st"
      "ds_nnodes st" "ds_nedges st"]
  obtain brk i' cs' where sc:
    "distribute_scan S g (((t + 1) * bs) mod 2 ^ 64) [i..<?n] (ds_curSize st) (ds_nnodes st)
        (ds_nedges st) =
       Inr (brk, [i'..<?n], cs', ds_nnodes st + (i' - i),
            ds_nedges st + (edge_start g i' - edge_start g i))"
    "i \<le> i'" "i' \<le> ?n" "\<not> brk \<longrightarrow> i' = ?n"
    by blast
  have li: "l \<le> i" using i(2) by (simp add: l_def)
  have li': "l \<le> i'" using li sc(2) by simp
  have nn: "ds_nnodes st + (i' - i) = i' - l" using i(4) li sc(2) by (simp add: l_def)
  have m1: "edge_start g l \<le> edge_start g i" by (rule edge_start_mono2 [OF v li i(1)])
  have m2: "edge_start g i \<le> edge_start g i'" by (rule edge_start_mono2 [OF v sc(2) sc(3)])
  have ne: "ds_nedges st + (edge_start g i' - edge_start g i) = edge_start g i' - edge_start g l"
    using i(5) m1 m2 by (simp add: l_def)
  have rest_len: "?n - length [i'..<?n] = i'" using sc(3) by simp
  show ?case
  proof (cases brk)
    case True
    define st1 where "st1 = st\<lparr>ds_rest := [i'..<?n], ds_last := i', ds_curSize := cs',
        ds_nnodes := 0, ds_nedges := 0,
        ds_runningNodes := ds_runningNodes st + (i' - l),
        ds_runningEdges := ds_runningEdges st + (edge_start g i' - edge_start g l),
        ds_dinfo := (ds_dinfo st)[t := \<lparr>d_numNodes = i' - l,
            d_numEdges = edge_start g i' - edge_start g l, d_begin = l, d_end = i'\<rparr>]\<rparr>"
    have step: "distribute_threads S g ?n bs [t..<m] st = distribute_threads S g ?n bs [Suc t..<m] st1"
      unfolding up distribute_threads.simps i(3) sc(1) using tl True
      by (simp add: nn ne rest_len st1_def l_def del: length_upt)
    have ok1: "dinfo_ok g (Suc t) i' (ds_dinfo st1)"
      unfolding st1_def using dinfo_ok_set [OF i(8) tl, of i'] li' by (simp add: l_def)
    have rn: "ds_runningNodes st1 = i'" using i(6) li' by (simp add: st1_def l_def)
    have re: "ds_runningEdges st1 = edge_start g i'" using i(7) m1 m2 by (simp add: st1_def l_def)
    have inv1: "dist_inv g (Suc t) st1"
      unfolding dist_inv_def
    proof (intro exI [of _ i'] conjI)
      show "i' \<le> ?n" by (rule sc(3))
      show "ds_last st1 \<le> i'" by (simp add: st1_def)
      show "ds_rest st1 = [i'..<?n]" by (simp add: st1_def)
      show "ds_nnodes st1 = i' - ds_last st1" by (simp add: st1_def)
      show "ds_nedges st1 = edge_start g i' - edge_start g (ds_last st1)" by (simp add: st1_def)
      show "ds_runningNodes st1 = ds_last st1" using rn by (simp add: st1_def)
      show "ds_runningEdges st1 = edge_start g (ds_last st1)" using re by (simp add: st1_def)
      show "dinfo_ok g (Suc t) (ds_last st1) (ds_dinfo st1)" using ok1 by (simp add: st1_def)
    qed
    have len1: "length (ds_dinfo st1) = length (ds_dinfo st)" by (simp add: st1_def)
    from Suc.hyps(1) [OF j le _ inv1] Suc.prems(2) len1
    show ?thesis unfolding step by simp
  next
    case False
    then have i'n: "i' = ?n" using sc(4) by simp
    define st1 where "st1 = st\<lparr>ds_rest := [i'..<?n], ds_curSize := cs',
        ds_nnodes := i' - l, ds_nedges := edge_start g i' - edge_start g l\<rparr>"
    have step: "distribute_threads S g ?n bs [t..<m] st = distribute_threads S g ?n bs [Suc t..<m] st1"
      unfolding up distribute_threads.simps i(3) sc(1) using False
      by (simp add: nn ne st1_def del: length_upt)
    have inv1: "dist_inv g (Suc t) st1"
      unfolding dist_inv_def
    proof (intro exI [of _ i'] conjI)
      show "i' \<le> ?n" by (rule sc(3))
      show "ds_last st1 \<le> i'" using li' by (simp add: st1_def l_def)
      show "ds_rest st1 = [i'..<?n]" by (simp add: st1_def)
      show "ds_nnodes st1 = i' - ds_last st1" by (simp add: st1_def l_def)
      show "ds_nedges st1 = edge_start g i' - edge_start g (ds_last st1)" by (simp add: st1_def l_def)
      show "ds_runningNodes st1 = ds_last st1" using i(6) by (simp add: st1_def)
      show "ds_runningEdges st1 = edge_start g (ds_last st1)" using i(7) by (simp add: st1_def)
      show "dinfo_ok g (Suc t) (ds_last st1) (ds_dinfo st1)"
        using dinfo_ok_skip [OF i(8) tl] by (simp add: st1_def)
    qed
    have len1: "length (ds_dinfo st1) = length (ds_dinfo st)" by (simp add: st1_def)
    from Suc.hyps(1) [OF j le _ inv1] Suc.prems(2) len1
    show ?thesis unfolding step by simp
  qed
qed
lemma unat_sub_of_nat64:
  assumes "l \<le> unat (w :: 64 word)"
  shows "unat (w - word_of_nat l) = unat w - l"
proof -
  have lw: "l < 2 ^ 64" using assms unsigned_less [of w, where 'a = nat] by simp
  have u: "unat (word_of_nat l :: 64 word) = l" using lw by (simp add: unat_of_nat)
  have "word_of_nat l \<le> w" using assms u by (simp add: word_le_nat_alt)
  then show ?thesis using u by (simp add: unat_sub)
qed
lemma distribute_ok:
  assumes v: "valid_FileGraph g" and n32: "unat (numNodes g) < 2 ^ 32"
    and num: "0 < num" and nn: "unat nn = unat (numNodes g)" and ne: "unat ne = unat (numEdges g)"
  shows "\<exists>dinfo. distribute S g num nn ne = Inr dinfo \<and> length dinfo = num \<and>
           dinfo_ok g num (unat (numNodes g)) dinfo"
proof -
  let ?n = "unat (numNodes g)"
  define st0 where "st0 = \<lparr>ds_rest = [0..<?n], ds_last = 0, ds_curSize = 0, ds_nnodes = 0,
      ds_nedges = 0, ds_runningNodes = 0, ds_runningEdges = 0,
      ds_dinfo = replicate num DistributeInfo_zero\<rparr>"
  define bs where "bs = ((sizeof_NodeInfo S * unat nn + sizeof_EdgeInfo S * unat ne) mod 2 ^ 64) div num"
  have inv0: "dist_inv g 0 st0"
    unfolding dist_inv_def
    by (intro exI [of _ 0]) (simp add: st0_def edge_start_0 dinfo_ok_init)
  have len0: "length (ds_dinfo st0) = num" by (simp add: st0_def)
  have m: "num - 1 \<le> length (ds_dinfo st0)" using len0 by simp
  from distribute_threads_ok [OF v n32 _ m inv0, of S bs]
  obtain st where st: "distribute_threads S g ?n bs [0..<num - 1] st0 = Inr st"
    "dist_inv g (num - 1) st" "length (ds_dinfo st) = num"
    using len0 by auto
  from st(2) obtain i where i: "i \<le> ?n" "ds_last st \<le> i"
    "ds_runningNodes st = ds_last st" "ds_runningEdges st = edge_start g (ds_last st)"
    "dinfo_ok g (num - 1) (ds_last st) (ds_dinfo st)"
    unfolding dist_inv_def by blast
  define l where "l = ds_last st"
  have ln: "l \<le> ?n" using i(1,2) by (simp add: l_def)
  have a: "unat (nn - word_of_nat (ds_runningNodes st)) = ?n - l"
    using unat_sub_of_nat64 [of l nn] ln nn i(3) by (simp add: l_def)
  have el: "edge_start g l \<le> unat (numEdges g)" by (rule edge_start_le [OF v ln])
  have b: "unat (ne - word_of_nat (ds_runningEdges st)) = edge_start g ?n - edge_start g l"
    using unat_sub_of_nat64 [of "edge_start g l" ne] el ne i(4) edge_start_last [OF v]
    by (simp add: l_def)
  have tl: "num - 1 < length (ds_dinfo st)" using st(3) num by simp
  have "dinfo_ok g (Suc (num - 1)) ?n ((ds_dinfo st)[num - 1 := \<lparr>d_numNodes = ?n - l,
           d_numEdges = edge_start g ?n - edge_start g l, d_begin = l, d_end = ?n\<rparr>])"
    using dinfo_ok_set [OF i(5) tl, of ?n] ln by (simp add: l_def)
  then have ok: "dinfo_ok g num ?n ((ds_dinfo st)[num - 1 := \<lparr>d_numNodes = ?n - l,
           d_numEdges = edge_start g ?n - edge_start g l, d_begin = l, d_end = ?n\<rparr>])"
    using num by simp
  have "distribute S g num nn ne = Inr ((ds_dinfo st)[num - 1 := \<lparr>d_numNodes = ?n - l,
           d_numEdges = edge_start g ?n - edge_start g l, d_begin = l, d_end = ?n\<rparr>])"
    unfolding distribute_def Let_def bs_def [symmetric] st0_def [symmetric]
    using st(1) num by (simp add: a b l_def)
  then show ?thesis using ok st(3) by simp
qed

lemma covered_empty: "covered dinfo {} = {}"
  by (simp add: covered_def)

lemma covered_insert:
  "covered dinfo (insert t T) = covered dinfo T \<union> {d_begin (dinfo ! t)..<d_end (dinfo ! t)}"
  by (auto simp: covered_def)

lemma covered_all:
  assumes "dinfo_ok g num n dinfo"
  shows "covered dinfo {..<num} = {..<n}"
proof (intro set_eqI iffI)
  fix k assume "k \<in> covered dinfo {..<num}"
  then obtain tid where "tid < num" "d_begin (dinfo ! tid) \<le> k" "k < d_end (dinfo ! tid)"
    by (auto simp: covered_def)
  moreover have "d_end (dinfo ! tid) \<le> n" if "tid < num" for tid
    using assms that unfolding dinfo_ok_def by blast
  ultimately show "k \<in> {..<n}" by fastforce
next
  fix k assume "k \<in> {..<n}"
  then have "k < n" by simp
  then obtain tid where "tid < num" "d_begin (dinfo ! tid) \<le> k" "k < d_end (dinfo ! tid)"
    using assms unfolding dinfo_ok_def by blast
  then show "k \<in> covered dinfo {..<num}" by (auto simp: covered_def)
qed

lemma covered_disjoint:
  assumes ok: "dinfo_ok g num n dinfo" and t: "t < num" and T: "T \<subseteq> {..<num}" "t \<notin> T"
  shows "covered dinfo T \<inter> {d_begin (dinfo ! t)..<d_end (dinfo ! t)} = {}"
proof (rule ccontr)
  assume "covered dinfo T \<inter> {d_begin (dinfo ! t)..<d_end (dinfo ! t)} \<noteq> {}"
  then obtain k tid where k: "tid \<in> T" "d_begin (dinfo ! tid) \<le> k" "k < d_end (dinfo ! tid)"
    "d_begin (dinfo ! t) \<le> k" "k < d_end (dinfo ! t)"
    by (auto simp: covered_def)
  have "tid < num" "tid \<noteq> t" using k(1) T by auto
  then have "d_end (dinfo ! tid) \<le> d_begin (dinfo ! t) \<or> d_end (dinfo ! t) \<le> d_begin (dinfo ! tid)"
    using ok t unfolding dinfo_ok_def by blast
  then show False using k by linarith
qed

lemma dinfo_entry:
  assumes "dinfo_ok g num n dinfo" "tid < num"
  shows "d_begin (dinfo ! tid) \<le> d_end (dinfo ! tid)" "d_end (dinfo ! tid) \<le> n"
    "d_numNodes (dinfo ! tid) = d_end (dinfo ! tid) - d_begin (dinfo ! tid)"
    "d_numEdges (dinfo ! tid) = edge_start g (d_end (dinfo ! tid)) - edge_start g (d_begin (dinfo ! tid))"
    "tid < length dinfo"
  using assms unfolding dinfo_ok_def by auto

lemma placed_alloc:
  assumes p: "placed S g K nodes mem"
    and other: "\<forall>k\<in>K. \<forall>a. nodes ! k \<noteq> Some (B, a)"
  shows "placed S g K nodes (alloc_block mem B sz)"
  unfolding placed_def
proof (intro conjI ballI allI impI)
  fix k assume k: "k \<in> K"
  from placed_at [OF p k] obtain B' a where a: "nodes ! k = Some (B', a)" "0 \<le> a" "k < length nodes"
    "cells mem (B', a) = Some (NodeCell (int (degree g k)))"
    "node_end S g k a \<le> int (block_size mem B')" by blast
  show "k < length nodes" by (rule a(3))
  have "B' \<noteq> B" using other k a(1) by auto
  then show "\<exists>B' a. nodes ! k = Some (B', a) \<and> 0 \<le> a \<and>
       cells (alloc_block mem B sz) (B', a) = Some (NodeCell (int (degree g k))) \<and>
       node_end S g k a \<le> int (block_size (alloc_block mem B sz) B')"
    using a by (simp add: alloc_block_def)
next
  fix k k' B' a a'
  assume "k \<in> K" "k' \<in> K" "k \<noteq> k'" "nodes ! k = Some (B', a)" "nodes ! k' = Some (B', a')"
  then show "node_end S g k a \<le> a' \<or> node_end S g k' a' \<le> a"
    by (rule placed_disjoint [OF p])
qed

lemma chunk_fits:
  assumes v: "valid_FileGraph g" and be: "b \<le> e" and en: "e \<le> unat (numNodes g)"
    and fit: "2 * sizeof_Header S + 2 * sizeof_NodeInfo S * unat (numNodes g) +
        sizeof_EdgeInfo S * unat (numEdges g) < 2 ^ 64"
  shows "sizeof_Header S * 2 + sizeof_NodeInfo S * (e - b) * 2 +
        sizeof_EdgeInfo S * (edge_start g e - edge_start g b) < 2 ^ 64"
proof -
  have "e - b \<le> unat (numNodes g)" using en by simp
  then have a: "sizeof_NodeInfo S * (e - b) \<le> sizeof_NodeInfo S * unat (numNodes g)"
    by (rule mult_le_mono2)
  have "edge_start g e - edge_start g b \<le> unat (numEdges g)"
    using edge_start_le [OF v en] by simp
  then have b: "sizeof_EdgeInfo S * (edge_start g e - edge_start g b)
      \<le> sizeof_EdgeInfo S * unat (numEdges g)"
    by (rule mult_le_mono2)
  show ?thesis using a b fit by linarith
qed

lemma AllocateNodes_ok:
  assumes sN: "0 < sizeof_NodeInfo S" and v: "valid_FileGraph g"
    and n32: "unat (numNodes g) < 2 ^ 32"
    and d31: "\<forall>k<unat (numNodes g). degree g k < 2 ^ 31"
    and fit: "2 * sizeof_Header S + 2 * sizeof_NodeInfo S * unat (numNodes g) +
        sizeof_EdgeInfo S * unat (numEdges g) < 2 ^ 64"
    and ok: "dinfo_ok g num (unat (numNodes g)) dinfo" and t: "t < num"
    and T: "T \<subseteq> {..<num}" "t \<notin> T"
    and inv: "nodes_inv S g dinfo num T G"
  shows "\<exists>G'. AllocateNodes S g dinfo t G = Inr G' \<and> nodes_inv S g dinfo num (insert t T) G'"
proof -
  let ?n = "unat (numNodes g)"
  define d where "d = dinfo ! t"
  define b where "b = d_begin d"
  define e where "e = d_end d"
  note ent = dinfo_entry [OF ok t]
  have be: "b \<le> e" and en: "e \<le> ?n" and dn: "d_numNodes d = e - b"
    and de: "d_numEdges d = edge_start g e - edge_start g b" and tl: "t < length dinfo"
    using ent by (simp_all add: d_def b_def e_def)
  from inv have ln: "length (l2_nodes G) = ?n" and lh: "length (l2_headers G) = num"
    and p: "placed S g (covered dinfo T) (l2_nodes G) (l2_mem G)"
    and blk: "\<forall>k\<in>covered dinfo T. \<exists>tid a. l2_nodes G ! k = Some (Suc tid, a) \<and> tid \<in> T"
    unfolding nodes_inv_def by auto
  define sz where "sz = (sizeof_Header S * 2 + sizeof_NodeInfo S * d_numNodes d * 2
      + sizeof_EdgeInfo S * d_numEdges d) mod 2 ^ 64"
  have sz: "sz = sizeof_Header S * 2 + sizeof_NodeInfo S * (e - b) * 2
      + sizeof_EdgeInfo S * (edge_start g e - edge_start g b)"
    unfolding sz_def dn de using chunk_fits [OF v be en fit] by simp
  define mem where "mem = alloc_block (l2_mem G) (Suc t) sz"
  define first where "first = (Suc t, int (sizeof_Header S))"
  define h where "h = \<lparr>h_begin = first, h_end = first, h_size = sz\<rparr>"
  have notB: "\<forall>k\<in>covered dinfo T. \<forall>a. l2_nodes G ! k \<noteq> Some (Suc t, a)"
  proof (intro ballI allI notI)
    fix k a assume k: "k \<in> covered dinfo T" and eq: "l2_nodes G ! k = Some (Suc t, a)"
    from blk k obtain tid a' where "l2_nodes G ! k = Some (Suc tid, a')" "tid \<in> T" by blast
    then show False using eq T(2) by simp
  qed
  have pm: "placed S g (covered dinfo T) (l2_nodes G) mem"
    unfolding mem_def by (rule placed_alloc [OF p notB])
  have cov: "covered dinfo (insert t T) = covered dinfo T \<union> {b..<e}"
    by (simp add: covered_insert b_def e_def d_def)
  show ?thesis
  proof (cases "d_numNodes d = 0")
    case True
    then have "b = e" using dn be by simp
    then have cov': "covered dinfo (insert t T) = covered dinfo T" using cov by simp
    define G' where "G' = G\<lparr>l2_mem := mem, l2_headers := (l2_headers G)[t := Some h]\<rparr>"
    have r: "AllocateNodes S g dinfo t G = Inr G'"
      unfolding AllocateNodes_def Let_def
      using tl lh t True
      by (simp add: d_def [symmetric] G'_def h_def first_def mem_def sz_def)
    have "nodes_inv S g dinfo num (insert t T) G'"
      unfolding nodes_inv_def cov' using ln lh pm blk by (auto simp: G'_def)
    then show ?thesis using r by blast
  next
    case False
    have dj: "covered dinfo T \<inter> {b..<e} = {}"
      using covered_disjoint [OF ok t T] by (simp add: b_def e_def d_def)
    have el: "e \<le> length (l2_nodes G)" using en ln by simp
    have c0: "0 \<le> int (sizeof_Header S)" by simp
    have below: "\<forall>k\<in>covered dinfo T. \<forall>a. l2_nodes G ! k = Some (Suc t, a) \<longrightarrow>
        node_end S g k a \<le> int (sizeof_Header S)"
      using notB by blast
    have sd: "sum (degree g) {b..<e} + edge_start g b = edge_start g e"
      by (rule sum_degree [OF v be en])
    have sd': "sum (degree g) {b..<e} = edge_start g e - edge_start g b" using sd by linarith
    have "sum (node_weight S g) {b..<e} =
        2 * sizeof_NodeInfo S * (e - b) + sizeof_EdgeInfo S * (edge_start g e - edge_start g b)"
      unfolding sum_node_weight sd' ..
    then have "sizeof_Header S + sum (node_weight S g) {b..<e} \<le> sz"
      unfolding sz by simp
    then have "int (sizeof_Header S) + int (sum (node_weight S g) {b..<e}) \<le> int sz"
      by (simp only: of_nat_add [symmetric] of_nat_le_iff)
    moreover have "block_size mem (Suc t) = sz" by (simp add: mem_def alloc_block_def)
    ultimately have room: "int (sizeof_Header S) + int (sum (node_weight S g) {b..<e})
        \<le> int (block_size mem (Suc t))" by simp
    from place_nodes_ok [OF sN v n32 d31 be en el pm dj c0 below room]
    obtain c' mem1 nodes1 where r:
      "place_nodes S g [b..<e] (Suc t, int (sizeof_Header S)) mem (l2_nodes G) = Inr ((Suc t, c'), mem1, nodes1)"
      "placed S g (covered dinfo T \<union> {b..<e}) nodes1 mem1"
      "length nodes1 = length (l2_nodes G)"
      "\<forall>i. i \<notin> {b..<e} \<longrightarrow> nodes1 ! i = l2_nodes G ! i"
      "\<forall>k\<in>{b..<e}. \<exists>a. nodes1 ! k = Some (Suc t, a) \<and> int (sizeof_Header S) \<le> a \<and> node_end S g k a \<le> c'"
      by blast
    define G' where "G' = G\<lparr>l2_mem := mem1, l2_nodes := nodes1,
        l2_headers := (l2_headers G)[t := Some (h\<lparr>h_end := (Suc t, c')\<rparr>)]\<rparr>"
    have nlt: "\<not> e < b" using be by simp
    have res: "AllocateNodes S g dinfo t G = Inr G'"
      unfolding AllocateNodes_def Let_def
      using tl lh t False nlt r(1)
      by (simp add: d_def [symmetric] b_def [symmetric] e_def [symmetric]
          G'_def h_def first_def mem_def sz_def)
    have blk': "\<forall>k\<in>covered dinfo (insert t T).
        \<exists>tid a. l2_nodes G' ! k = Some (Suc tid, a) \<and> tid \<in> insert t T"
    proof
      fix k assume k: "k \<in> covered dinfo (insert t T)"
      show "\<exists>tid a. l2_nodes G' ! k = Some (Suc tid, a) \<and> tid \<in> insert t T"
      proof (cases "k \<in> {b..<e}")
        case True
        then obtain a where "nodes1 ! k = Some (Suc t, a)" using r(5) by blast
        then show ?thesis by (intro exI [of _ t] exI [of _ a]) (simp add: G'_def)
      next
        case False
        then have "k \<in> covered dinfo T" using k cov by blast
        then obtain tid a where "l2_nodes G ! k = Some (Suc tid, a)" "tid \<in> T" using blk by blast
        then show ?thesis using r(4) False
          by (intro exI [of _ tid] exI [of _ a]) (simp add: G'_def)
      qed
    qed
    have "nodes_inv S g dinfo num (insert t T) G'"
      unfolding nodes_inv_def
    proof (intro conjI)
      show "length (l2_nodes G') = ?n" using r(3) ln by (simp add: G'_def)
      show "length (l2_headers G') = num" using lh by (simp add: G'_def)
      show "placed S g (covered dinfo (insert t T)) (l2_nodes G') (l2_mem G')"
        using r(2) unfolding cov by (simp add: G'_def)
      show "\<forall>k\<in>covered dinfo (insert t T).
          \<exists>tid a. l2_nodes G' ! k = Some (Suc tid, a) \<and> tid \<in> insert t T"
        by (rule blk')
    qed
    then show ?thesis using res by blast
  qed
qed

lemma on_each_AllocateNodes_ok:
  assumes sN: "0 < sizeof_NodeInfo S" and v: "valid_FileGraph g"
    and n32: "unat (numNodes g) < 2 ^ 32"
    and d31: "\<forall>k<unat (numNodes g). degree g k < 2 ^ 31"
    and fit: "2 * sizeof_Header S + 2 * sizeof_NodeInfo S * unat (numNodes g) +
        sizeof_EdgeInfo S * unat (numEdges g) < 2 ^ 64"
    and ok: "dinfo_ok g num (unat (numNodes g)) dinfo"
  shows "distinct sched \<Longrightarrow> set sched \<subseteq> {..<num} \<Longrightarrow> T \<subseteq> {..<num} \<Longrightarrow> set sched \<inter> T = {} \<Longrightarrow>
         nodes_inv S g dinfo num T G \<Longrightarrow>
         \<exists>G'. on_each (AllocateNodes S g dinfo) sched G = Inr G' \<and>
               nodes_inv S g dinfo num (T \<union> set sched) G'"
proof (induction sched arbitrary: T G)
  case Nil
  then show ?case by simp
next
  case (Cons t sched)
  have t: "t < num" "t \<notin> T" using Cons.prems(2,4) by auto
  from AllocateNodes_ok [OF sN v n32 d31 fit ok t(1) Cons.prems(3) t(2) Cons.prems(5)] obtain G1 where
    g1: "AllocateNodes S g dinfo t G = Inr G1" "nodes_inv S g dinfo num (insert t T) G1" by blast
  have a: "distinct sched" "set sched \<subseteq> {..<num}" "insert t T \<subseteq> {..<num}"
    "set sched \<inter> insert t T = {}"
    using Cons.prems(1,2,3,4) t(1) by auto
  from Cons.IH [OF a g1(2)] obtain G' where
    "on_each (AllocateNodes S g dinfo) sched G1 = Inr G'"
    "nodes_inv S g dinfo num (insert t T \<union> set sched) G'" by blast
  moreover have "insert t T \<union> set sched = T \<union> set (t # sched)" by auto
  ultimately show ?case by (simp add: g1(1))
qed

lemma AllocateEdges_ok:
  assumes sN: "0 < sizeof_NodeInfo S" and sE: "0 < sizeof_EdgeInfo S" and v: "valid_FileGraph g"
    and n32: "unat (numNodes g) < 2 ^ 32"
    and ok: "dinfo_ok g num (unat (numNodes g)) dinfo" and t: "t < num"
    and inv: "edges_inv S g dinfo T G"
  shows "\<exists>G'. AllocateEdges S g dinfo t G = Inr G' \<and> edges_inv S g dinfo (insert t T) G'"
proof -
  let ?n = "unat (numNodes g)"
  define d where "d = dinfo ! t"
  define b where "b = d_begin d"
  define e where "e = d_end d"
  note ent = dinfo_entry [OF ok t]
  have be: "b \<le> e" and en: "e \<le> ?n" and dn: "d_numNodes d = e - b" and tl: "t < length dinfo"
    using ent by (simp_all add: d_def b_def e_def)
  from inv have ln: "length (l2_nodes G) = ?n"
    and p: "placed S g {..<?n} (l2_nodes G) (l2_mem G)"
    and D: "\<forall>k\<in>covered dinfo T. k < ?n \<and> edges_ok S g (l2_nodes G) (l2_mem G) k"
    unfolding edges_inv_def by auto
  have cov: "covered dinfo (insert t T) = covered dinfo T \<union> {b..<e}"
    by (simp add: covered_insert b_def e_def d_def)
  show ?thesis
  proof (cases "d_numNodes d = 0")
    case True
    then have "b = e" using dn be by simp
    then have cov': "covered dinfo (insert t T) = covered dinfo T" using cov by simp
    have r: "AllocateEdges S g dinfo t G = Inr G"
      unfolding AllocateEdges_def Let_def using tl True by (simp add: d_def [symmetric])
    have "edges_inv S g dinfo (insert t T) G" using inv unfolding edges_inv_def cov' .
    then show ?thesis using r by blast
  next
    case False
    from place_edges_ok [OF sN sE v n32 be en p D] obtain mem' where r:
      "place_edges S g (l2_nodes G) [b..<e] (l2_mem G) = Inr mem'"
      "placed S g {..<?n} (l2_nodes G) mem'"
      "\<forall>k'\<in>covered dinfo T \<union> {b..<e}. k' < ?n \<and> edges_ok S g (l2_nodes G) mem' k'"
      by blast
    have nlt: "\<not> e < b" using be by simp
    have res: "AllocateEdges S g dinfo t G = Inr (G\<lparr>l2_mem := mem'\<rparr>)"
      unfolding AllocateEdges_def Let_def using tl False nlt r(1)
      by (simp add: d_def [symmetric] b_def [symmetric] e_def [symmetric])
    have "edges_inv S g dinfo (insert t T) (G\<lparr>l2_mem := mem'\<rparr>)"
      unfolding edges_inv_def cov using ln r(2) r(3) by simp
    then show ?thesis using res by blast
  qed
qed

lemma on_each_AllocateEdges_ok:
  assumes sN: "0 < sizeof_NodeInfo S" and sE: "0 < sizeof_EdgeInfo S" and v: "valid_FileGraph g"
    and n32: "unat (numNodes g) < 2 ^ 32"
    and ok: "dinfo_ok g num (unat (numNodes g)) dinfo"
  shows "set sched \<subseteq> {..<num} \<Longrightarrow> edges_inv S g dinfo T G \<Longrightarrow>
         \<exists>G'. on_each (AllocateEdges S g dinfo) sched G = Inr G' \<and>
               edges_inv S g dinfo (T \<union> set sched) G'"
proof (induction sched arbitrary: T G)
  case Nil
  then show ?case by simp
next
  case (Cons t sched)
  have t: "t < num" using Cons.prems(1) by simp
  from AllocateEdges_ok [OF sN sE v n32 ok t Cons.prems(2)] obtain G1 where
    g1: "AllocateEdges S g dinfo t G = Inr G1" "edges_inv S g dinfo (insert t T) G1" by blast
  have a: "set sched \<subseteq> {..<num}" using Cons.prems(1) by simp
  from Cons.IH [OF a g1(2)] obtain G' where
    "on_each (AllocateEdges S g dinfo) sched G1 = Inr G'"
    "edges_inv S g dinfo (insert t T \<union> set sched) G'" by blast
  moreover have "insert t T \<union> set sched = T \<union> set (t # sched)" by auto
  ultimately show ?case by (simp add: g1(1))
qed

lemma LC_Linear2_build_ok:
  assumes sN: "0 < sizeof_NodeInfo S" and sE: "0 < sizeof_EdgeInfo S" and v: "valid_FileGraph g"
    and n32: "unat (numNodes g) < 2 ^ 32" and e32: "unat (numEdges g) < 2 ^ 32"
    and d31: "\<forall>k<unat (numNodes g). degree g k < 2 ^ 31"
    and fit: "2 * sizeof_Header S + 2 * sizeof_NodeInfo S * unat (numNodes g) +
        sizeof_EdgeInfo S * unat (numEdges g) < 2 ^ 64"
    and num: "0 < num"
    and s1: "distinct sched1" "set sched1 = {..<num}" and s2: "set sched2 = {..<num}"
  shows "\<exists>G. LC_Linear2_build S num sched1 sched2 g = Inr G \<and>
           length (l2_nodes G) = unat (numNodes g) \<and>
           placed S g {..<unat (numNodes g)} (l2_nodes G) (l2_mem G) \<and>
           (\<forall>k<unat (numNodes g). edges_ok S g (l2_nodes G) (l2_mem G) k)"
proof -
  let ?n = "unat (numNodes g)" and ?E = "unat (numEdges g)"
  define nn :: "64 word" where "nn = ucast (size_FileGraph g)"
  define ne :: "64 word" where "ne = ucast (sizeEdges g)"
  have nn: "unat nn = ?n"
    unfolding nn_def size_FileGraph_def by (rule ucast_size_bounded [OF n32])
  have ne: "unat ne = ?E"
    unfolding ne_def sizeEdges_def by (rule ucast_size_bounded [OF e32])
  from distribute_ok [OF v n32 num nn ne, of S] obtain dinfo where
    di: "distribute S g num nn ne = Inr dinfo" "length dinfo = num" "dinfo_ok g num ?n dinfo"
    by blast
  define G0 where "G0 = \<lparr>l2_mem = empty_memory, l2_headers = replicate num None,
      l2_nodes = replicate ?n None, l2_numNodes = nn, l2_numEdges = ne\<rparr>"
  have inv0: "nodes_inv S g dinfo num {} G0"
    unfolding nodes_inv_def by (simp add: covered_empty placed_empty G0_def)
  have sub1: "set sched1 \<subseteq> {..<num}" using s1(2) by simp
  from on_each_AllocateNodes_ok [OF sN v n32 d31 fit di(3) s1(1) sub1 _ _ inv0] obtain G1 where
    g1: "on_each (AllocateNodes S g dinfo) sched1 G0 = Inr G1"
      "nodes_inv S g dinfo num ({} \<union> set sched1) G1"
    by auto
  have c: "covered dinfo {..<num} = {..<?n}" by (rule covered_all [OF di(3)])
  have t1: "{} \<union> set sched1 = {..<num}" using s1(2) by simp
  have e0: "edges_inv S g dinfo {} G1"
    using g1(2) unfolding nodes_inv_def edges_inv_def t1 c by (simp add: covered_empty)
  have sub2: "set sched2 \<subseteq> {..<num}" using s2 by simp
  from on_each_AllocateEdges_ok [OF sN sE v n32 di(3) sub2 e0] obtain G2 where
    g2: "on_each (AllocateEdges S g dinfo) sched2 G1 = Inr G2"
      "edges_inv S g dinfo ({} \<union> set sched2) G2"
    by auto
  have t2: "{} \<union> set sched2 = {..<num}" using s2 by simp
  have "LC_Linear2_build S num sched1 sched2 g = Inr G2"
    unfolding LC_Linear2_build_def Let_def nn_def [symmetric] ne_def [symmetric]
    using di(1) g1(1) g2(1) by (simp add: nn G0_def)
  moreover have "length (l2_nodes G2) = ?n" "placed S g {..<?n} (l2_nodes G2) (l2_mem G2)"
    "\<forall>k<?n. edges_ok S g (l2_nodes G2) (l2_mem G2) k"
    using g2(2) unfolding edges_inv_def t2 c by auto
  ultimately show ?thesis by blast
qed

lemma placed_inj_on:
  assumes "0 < sizeof_NodeInfo S" "placed S g K nodes mem"
  shows "inj_on (\<lambda>k. nodes ! k) K"
  by (rule inj_onI) (rule placed_inj [OF assms])
lemma ptr_all_edge_dsts:
  assumes sN: "0 < sizeof_NodeInfo S" and sE: "0 < sizeof_EdgeInfo S"
    and p: "placed S g {..<n} nodes mem" and e: "\<forall>k<n. edges_ok S g nodes mem k" and k: "k < n"
  shows "\<exists>p. nodes ! k = Some p \<and>
           ptr_edge_dsts S mem p = Inr (map (\<lambda>d. the (nodes ! unat d)) (node_dests g k))"
proof -
  have "k \<in> {..<n}" using k by simp
  moreover have "edges_ok S g nodes mem k" using e k by simp
  ultimately show ?thesis using ptr_edge_dsts_ok [OF sN sE p] by blast
qed

text \<open>
  Claim C2, as the code has it. For a valid file graph with fewer than \<open>2^32\<close> nodes and
  fewer than \<open>2^32\<close> edges in which every node has fewer than \<open>2^31\<close> out-edges,
  whose records fit the 64 bits of \<open>size_t\<close>, \<open>structureFromFile\<close> of each of the
  four layouts succeeds (for \<open>LC_Linear2_Graph\<close> with any number \<open>num > 0\<close> of
  threads and any order in which the threads run \<open>AllocateNodes\<close> and
  \<open>AllocateEdges\<close>), and for every node \<open>k\<close>, iterating its edges
  from \<open>edge_begin\<close> to \<open>edge_end\<close> and mapping each through \<open>getEdgeDst\<close> yields in
  every layout the destinations of \<open>k\<close> in the file graph, in the same order: as node
  ids in \<open>FileGraph\<close> and \<open>LC_CSR_Graph\<close>, as indices into \<open>NodeData\<close> in
  \<open>LC_CSRInline_Graph\<close>, and as the pointers \<open>nodes[d]\<close> in the two linear layouts,
  where \<open>nodes\<close> maps distinct nodes to distinct pointers and the records of the nodes
  lie inside their blocks without overlap.
\<close>

theorem layouts_same_topology:
  assumes "structureFromFile FileGraph_ctor fs fname = Inr g" and "valid_FileGraph g"
    and "unat (numNodes g) < 2 ^ 32" and "unat (numEdges g) < 2 ^ 32"
    and "\<forall>k<unat (numNodes g). degree g k < 2 ^ 31"
    and "0 < sizeof_NodeInfo S" and "0 < sizeof_EdgeInfo S" and "0 < num"
    and "2 * sizeof_Header S + 2 * sizeof_NodeInfo S * unat (numNodes g) +
        sizeof_EdgeInfo S * unat (numEdges g) < 2 ^ 64"
    and "distinct sched1" and "set sched1 = {..<num}" and "set sched2 = {..<num}"
  shows "\<exists>G1 G2 G3 G4.
     LC_CSR_structureFromFile fs fname = Inr G1 \<and>
     LC_CSRInline_structureFromFile fs fname = Inr G2 \<and>
     LC_Linear_structureFromFile S fs fname = Inr G3 \<and>
     LC_Linear2_structureFromFile S num sched1 sched2 fs fname = Inr G4 \<and>
     placed S g {..<unat (numNodes g)} (lin_nodes G3) (lin_mem G3) \<and>
     placed S g {..<unat (numNodes g)} (l2_nodes G4) (l2_mem G4) \<and>
     inj_on (\<lambda>k. lin_nodes G3 ! k) {..<unat (numNodes g)} \<and>
     inj_on (\<lambda>k. l2_nodes G4 ! k) {..<unat (numNodes g)} \<and>
     (\<forall>k<unat (numNodes g).
        edge_dsts g (word_of_nat k) = Inr (node_dests g k) \<and>
        csr_edge_dsts G1 (word_of_nat k) = Inr (node_dests g k) \<and>
        inl_edge_dsts G2 k = Inr (map unat (node_dests g k)) \<and>
        (\<exists>p. lin_nodes G3 ! k = Some p \<and>
           lin_edge_dsts S G3 p = Inr (map (\<lambda>d. the (lin_nodes G3 ! unat d)) (node_dests g k))) \<and>
        (\<exists>p. l2_nodes G4 ! k = Some p \<and>
           l2_edge_dsts S G4 p = Inr (map (\<lambda>d. the (l2_nodes G4 ! unat d)) (node_dests g k))))"
proof -
  let ?n = "unat (numNodes g)"
  note ld = assms(1) and v = assms(2) and n32 = assms(3) and e32 = assms(4) and d31 = assms(5)
    and sN = assms(6) and sE = assms(7) and num = assms(8) and fit = assms(9)
    and s1 = assms(10,11) and s2 = assms(12)
  have fit3: "sizeof_NodeInfo S * unat (numNodes g) * 2 + sizeof_EdgeInfo S * unat (numEdges g) < 2 ^ 64"
    using fit by simp
  from LC_CSR_build_valid [OF v n32 e32] obtain G1 where g1: "LC_CSR_build g = Inr G1" by blast
  from LC_CSRInline_build_valid [OF v n32 e32] obtain G2 where g2: "LC_CSRInline_build g = Inr G2"
    by blast
  from LC_Linear_build_ok [OF sN sE v n32 e32 d31 fit3] obtain G3 where
    g3: "LC_Linear_build S g = Inr G3" "placed S g {..<?n} (lin_nodes G3) (lin_mem G3)"
      "\<forall>k<?n. edges_ok S g (lin_nodes G3) (lin_mem G3) k" by blast
  from LC_Linear2_build_ok [OF sN sE v n32 e32 d31 fit num s1 s2] obtain G4 where
    g4: "LC_Linear2_build S num sched1 sched2 g = Inr G4" "placed S g {..<?n} (l2_nodes G4) (l2_mem G4)"
      "\<forall>k<?n. edges_ok S g (l2_nodes G4) (l2_mem G4) k" by blast
  have f1: "LC_CSR_structureFromFile fs fname = Inr G1"
    by (simp add: LC_CSR_structureFromFile_def ld g1)
  have f2: "LC_CSRInline_structureFromFile fs fname = Inr G2"
    by (simp add: LC_CSRInline_structureFromFile_def ld g2)
  have f3: "LC_Linear_structureFromFile S fs fname = Inr G3"
    by (simp add: LC_Linear_structureFromFile_def ld g3(1))
  have f4: "LC_Linear2_structureFromFile S num sched1 sched2 fs fname = Inr G4"
    by (simp add: LC_Linear2_structureFromFile_def ld g4(1))
  have i3: "inj_on (\<lambda>k. lin_nodes G3 ! k) {..<?n}" by (rule placed_inj_on [OF sN g3(2)])
  have i4: "inj_on (\<lambda>k. l2_nodes G4 ! k) {..<?n}" by (rule placed_inj_on [OF sN g4(2)])
  have all: "\<forall>k<?n.
        edge_dsts g (word_of_nat k) = Inr (node_dests g k) \<and>
        csr_edge_dsts G1 (word_of_nat k) = Inr (node_dests g k) \<and>
        inl_edge_dsts G2 k = Inr (map unat (node_dests g k)) \<and>
        (\<exists>p. lin_nodes G3 ! k = Some p \<and>
           lin_edge_dsts S G3 p = Inr (map (\<lambda>d. the (lin_nodes G3 ! unat d)) (node_dests g k))) \<and>
        (\<exists>p. l2_nodes G4 ! k = Some p \<and>
           l2_edge_dsts S G4 p = Inr (map (\<lambda>d. the (l2_nodes G4 ! unat d)) (node_dests g k)))"
  proof (intro allI impI conjI)
    fix k assume k: "k < ?n"
    have k32: "k < 2 ^ 32" using k n32 by simp
    show "edge_dsts g (word_of_nat k) = Inr (node_dests g k)"
      by (rule edge_dsts_node_dests [OF v k k32])
    show "csr_edge_dsts G1 (word_of_nat k) = Inr (node_dests g k)"
      by (rule csr_edge_dsts_valid [OF v n32 e32 k g1])
    show "inl_edge_dsts G2 k = Inr (map unat (node_dests g k))"
      by (rule inl_edge_dsts_valid [OF v n32 e32 k g2])
    show "\<exists>p. lin_nodes G3 ! k = Some p \<and>
           lin_edge_dsts S G3 p = Inr (map (\<lambda>d. the (lin_nodes G3 ! unat d)) (node_dests g k))"
      unfolding lin_edge_dsts_def by (rule ptr_all_edge_dsts [OF sN sE g3(2) g3(3) k])
    show "\<exists>p. l2_nodes G4 ! k = Some p \<and>
           l2_edge_dsts S G4 p = Inr (map (\<lambda>d. the (l2_nodes G4 ! unat d)) (node_dests g k))"
      unfolding l2_edge_dsts_def by (rule ptr_all_edge_dsts [OF sN sE g4(2) g4(3) k])
  qed
  show ?thesis using f1 f2 f3 f4 g3(2) g4(2) i3 i4 all by blast
qed

text \<open>
  The graph with \<open>2^32\<close> edges.
\<close>

lemma huge_header_length: "length huge_header = 40"
  by (simp add: huge_header_def)
lemma huge_length: "length huge_image = 40 + 4 * 2 ^ 32"
  by (simp add: huge_image_def huge_header_length)
lemma huge_header_slice:
  "a + k \<le> 40 \<Longrightarrow> take k (drop a huge_image) = take k (drop a huge_header)"
  by (simp add: huge_image_def huge_header_length)
lemma huge_zero_slice:
  assumes "i < 2 ^ 32"
  shows "take 4 (drop (40 + 4 * i) huge_image) = [0, 0, 0, 0]"
proof -
  have "drop (40 + 4 * i) huge_image = drop (4 * i) (replicate (4 * 2 ^ 32) 0)"
    unfolding huge_image_def by (simp add: huge_header_length)
  also have "\<dots> = replicate (4 * 2 ^ 32 - 4 * i) 0" by (simp only: drop_replicate)
  finally have d: "drop (40 + 4 * i) huge_image = replicate (4 * 2 ^ 32 - 4 * i) 0" .
  have "4 \<le> 4 * (2::nat) ^ 32 - 4 * i" using assms by simp
  then have "min 4 (4 * (2::nat) ^ 32 - 4 * i) = 4" by (rule min_absorb1)
  then have "take 4 (replicate (4 * 2 ^ 32 - 4 * i) (0::byte)) = replicate 4 0"
    by (simp only: take_replicate)
  moreover have "replicate 4 (0::byte) = [0, 0, 0, 0]" by (simp add: numeral_eq_Suc)
  ultimately show ?thesis unfolding d by (simp only:)
qed

lemma huge_words:
  "unat (2 ^ 32 :: 64 word) = 2 ^ 32" "(ucast (2 ^ 32 :: 64 word) :: 32 word) = 0"
  "unat (1 :: 64 word) = 1" "(ucast (1 :: 64 word) :: 32 word) = 1"
  by simp_all
lemma huge_header_take: "k \<le> 40 \<Longrightarrow> take k huge_image = take k huge_header"
  using huge_header_slice [of 0 k] by simp
lemma huge_load64:
  "load64 huge_image 0 = Inr 1" "load64 huge_image 8 = Inr 0" "load64 huge_image 16 = Inr 1"
  "load64 huge_image 24 = Inr (2 ^ 32)" "load64 huge_image 32 = Inr (2 ^ 32)"
  by (simp_all add: load64_def huge_length huge_header_slice huge_header_take huge_header_def
      le_decode_def)
lemma huge_fields:
  "masterMapping huge_graph = huge_image" "masterLength huge_graph = 40 + 4 * 2 ^ 32"
  "sizeEdgeTy huge_graph = 0" "outIdx huge_graph = 32" "outs huge_graph = 40"
  "edgeData huge_graph = 40 + 4 * 2 ^ 32" "numEdges huge_graph = 2 ^ 32" "numNodes huge_graph = 1"
  by (simp_all add: huge_graph_def)
lemma huge_parse: "parse huge_image huge_graph = Inr huge_graph"
  by (simp add: parse_def huge_load64 huge_words Let_def huge_graph_def)
lemma huge_loaded:
  "structureFromFile FileGraph_ctor [''huge.gr'' \<mapsto> huge_image] ''huge.gr'' = Inr huge_graph"
  by (simp add: structureFromFile_def parse_def huge_load64 huge_words Let_def huge_graph_def
      huge_length FileGraph_ctor_def)
lemma huge_offsets: "offsets huge_graph = [2 ^ 32]"
proof -
  have "take 8 (drop 32 huge_image) = [0, 0, 0, 0, 1, 0, 0, 0]"
    by (simp add: huge_header_slice huge_header_def)
  then show ?thesis
    by (simp add: offsets_def huge_fields le_decode_def)
qed
lemma huge_dests: "dests huge_graph = replicate (2 ^ 32) 0"
proof -
  define N :: nat where "N = 2 ^ 32"
  have "map (\<lambda>i. word_of_nat (le_decode (take 4 (drop (40 + 4 * i) huge_image))) :: 32 word) [0..<N]
      = map (\<lambda>i. 0) [0..<N]"
  proof (rule map_cong [OF refl])
    fix i assume "i \<in> set [0..<N]"
    then have "i < 2 ^ 32" by (simp add: N_def)
    then have "take 4 (drop (40 + 4 * i) huge_image) = [0, 0, 0, 0]" by (rule huge_zero_slice)
    then show "(word_of_nat (le_decode (take 4 (drop (40 + 4 * i) huge_image))) :: 32 word) = 0"
      by (simp add: le_decode_def)
  qed
  also have "\<dots> = replicate N 0" by (simp add: map_replicate_const)
  finally show ?thesis
    unfolding dests_def huge_fields huge_words N_def .
qed
lemma huge_valid: "valid_FileGraph huge_graph"
proof -
  have "list_all (\<lambda>d. unat d < unat (numNodes huge_graph)) (dests huge_graph)"
    unfolding huge_dests by (simp add: list_all_iff huge_fields)
  moreover have "sorted (offsets huge_graph)" by (simp add: huge_offsets)
  moreover have "last (offsets huge_graph) = numEdges huge_graph" "offsets huge_graph \<noteq> []"
    by (simp_all add: huge_offsets huge_fields)
  moreover have "parse (masterMapping huge_graph) huge_graph = Inr huge_graph"
    by (simp add: huge_fields(1) huge_parse)
  moreover have "masterLength huge_graph \<le> length (masterMapping huge_graph)"
    by (simp add: huge_fields huge_length)
  moreover have "edgeData huge_graph + unat (numEdges huge_graph) * unat (sizeEdgeTy huge_graph)
      \<le> masterLength huge_graph"
    by (simp add: huge_fields)
  ultimately show ?thesis unfolding valid_FileGraph_def by simp
qed
lemma huge_CSR_faults: "LC_CSR_build huge_graph = Inl MemoryFault"
proof -
  have a: "load64_table huge_image 32 1 = Inr [2 ^ 32]"
    by (simp add: huge_load64)
  have "40 + 4 * (2::nat) ^ 32 \<le> length huge_image" by (simp add: huge_length)
  from load32_table_dests [OF this]
  obtain ed where b: "load32_table huge_image 40 4294967296 = Inr ed" "length ed = 4294967296"
    by simp
  have s: "size_FileGraph huge_graph = 1" "sizeEdges huge_graph = 0"
    by (simp_all add: size_FileGraph_def sizeEdges_def huge_fields)
  show ?thesis
    unfolding LC_CSR_build_def Let_def huge_fields huge_words s
    by (simp add: b huge_load64)
qed

lemma degree_le_numEdges:
  assumes "valid_FileGraph g" "k < unat (numNodes g)"
  shows "degree g k \<le> unat (numEdges g)"
  using degree_edge_start [OF assms] edge_start_le [OF assms(1), of "Suc k"] assms(2) by simp
lemma example_loaded:
  "structureFromFile FileGraph_ctor [''g.gr'' \<mapsto> example_image] ''g.gr'' = Inr example_graph"
  by (simp add: example_image_def structureFromFile_def parse_def load64_def le_decode_def Let_def
      FileGraph_ctor_def example_graph_def)
theorem layouts_same_topology_witness:
  "structureFromFile FileGraph_ctor [''g.gr'' \<mapsto> example_image] ''g.gr'' = Inr example_graph \<and>
   valid_FileGraph example_graph \<and>
   unat (numNodes example_graph) < 2 ^ 32 \<and> unat (numEdges example_graph) < 2 ^ 32 \<and>
   list_all (\<lambda>k. degree example_graph k < 2 ^ 31) [0, 1, 2, 3] \<and>
   0 < sizeof_NodeInfo example_sizes \<and> 0 < sizeof_EdgeInfo example_sizes \<and> (0 :: nat) < 3 \<and>
   2 * sizeof_Header example_sizes + 2 * sizeof_NodeInfo example_sizes * unat (numNodes example_graph) +
     sizeof_EdgeInfo example_sizes * unat (numEdges example_graph) < 2 ^ 64 \<and>
   distinct [2, 0, 1 :: nat] \<and> set [2, 0, 1 :: nat] = {..<3} \<and> set [1, 2, 0 :: nat] = {..<3} \<and>
   (\<exists>G1 G2 G3 G4.
      LC_CSR_structureFromFile [''g.gr'' \<mapsto> example_image] ''g.gr'' = Inr G1 \<and>
      LC_CSRInline_structureFromFile [''g.gr'' \<mapsto> example_image] ''g.gr'' = Inr G2 \<and>
      LC_Linear_structureFromFile example_sizes [''g.gr'' \<mapsto> example_image] ''g.gr'' = Inr G3 \<and>
      LC_Linear2_structureFromFile example_sizes 3 [2, 0, 1] [1, 2, 0]
        [''g.gr'' \<mapsto> example_image] ''g.gr'' = Inr G4 \<and>
      edge_dsts example_graph 0 = Inr [1, 2] \<and>
      csr_edge_dsts G1 0 = Inr [1, 2] \<and>
      inl_edge_dsts G2 0 = Inr [1, 2] \<and>
      (\<exists>p. lin_nodes G3 ! 0 = Some p \<and>
         lin_edge_dsts example_sizes G3 p = Inr [the (lin_nodes G3 ! 1), the (lin_nodes G3 ! 2)]) \<and>
      (\<exists>p. l2_nodes G4 ! 0 = Some p \<and>
         l2_edge_dsts example_sizes G4 p = Inr [the (l2_nodes G4 ! 1), the (l2_nodes G4 ! 2)]))"
proof -
  have ld: "structureFromFile FileGraph_ctor [''g.gr'' \<mapsto> example_image] ''g.gr'' = Inr example_graph"
    by (rule example_loaded)
  have v: "valid_FileGraph example_graph" by (rule example_graph_valid)
  have n: "unat (numNodes example_graph) = 4" "unat (numEdges example_graph) = 4"
    by (simp_all add: example_graph_def)
  have n32: "unat (numNodes example_graph) < 2 ^ 32" and e32: "unat (numEdges example_graph) < 2 ^ 32"
    by (simp_all add: n)
  have d: "\<forall>k<unat (numNodes example_graph). degree example_graph k < 2 ^ 31"
  proof (intro allI impI)
    fix k assume "k < unat (numNodes example_graph)"
    from degree_le_numEdges [OF v this] show "degree example_graph k < 2 ^ 31" by (simp add: n)
  qed
  have dl: "list_all (\<lambda>k. degree example_graph k < 2 ^ 31) [0, 1, 2, 3]"
    using d by (simp add: n)
  have sN: "0 < sizeof_NodeInfo example_sizes" and sE: "0 < sizeof_EdgeInfo example_sizes"
    by (simp_all add: example_sizes_def)
  have t: "(0 :: nat) < 3" by simp
  have fit: "2 * sizeof_Header example_sizes + 2 * sizeof_NodeInfo example_sizes * unat (numNodes example_graph) +
     sizeof_EdgeInfo example_sizes * unat (numEdges example_graph) < 2 ^ 64"
    by (simp add: n example_sizes_def)
  have s1: "distinct [2, 0, 1 :: nat]" "set [2, 0, 1 :: nat] = {..<3}" and s2: "set [1, 2, 0 :: nat] = {..<3}"
    by auto
  have nd: "node_dests example_graph 0 = [1, 2]"
    by (simp add: node_dests_def offsets_def dests_def example_graph_def example_image_def
        le_decode_def upt_rec)
  from layouts_same_topology [OF ld v n32 e32 d sN sE t fit s1 s2]
  obtain G1 G2 G3 G4 where r:
    "LC_CSR_structureFromFile [''g.gr'' \<mapsto> example_image] ''g.gr'' = Inr G1"
    "LC_CSRInline_structureFromFile [''g.gr'' \<mapsto> example_image] ''g.gr'' = Inr G2"
    "LC_Linear_structureFromFile example_sizes [''g.gr'' \<mapsto> example_image] ''g.gr'' = Inr G3"
    "LC_Linear2_structureFromFile example_sizes 3 [2, 0, 1] [1, 2, 0]
        [''g.gr'' \<mapsto> example_image] ''g.gr'' = Inr G4"
    "\<forall>k<unat (numNodes example_graph).
        edge_dsts example_graph (word_of_nat k) = Inr (node_dests example_graph k) \<and>
        csr_edge_dsts G1 (word_of_nat k) = Inr (node_dests example_graph k) \<and>
        inl_edge_dsts G2 k = Inr (map unat (node_dests example_graph k)) \<and>
        (\<exists>p. lin_nodes G3 ! k = Some p \<and>
           lin_edge_dsts example_sizes G3 p =
             Inr (map (\<lambda>d. the (lin_nodes G3 ! unat d)) (node_dests example_graph k))) \<and>
        (\<exists>p. l2_nodes G4 ! k = Some p \<and>
           l2_edge_dsts example_sizes G4 p =
             Inr (map (\<lambda>d. the (l2_nodes G4 ! unat d)) (node_dests example_graph k)))"
    by blast
  have "(0 :: nat) < unat (numNodes example_graph)" by (simp add: n)
  with r(5) have z:
    "edge_dsts example_graph (word_of_nat 0) = Inr (node_dests example_graph 0)"
    "csr_edge_dsts G1 (word_of_nat 0) = Inr (node_dests example_graph 0)"
    "inl_edge_dsts G2 0 = Inr (map unat (node_dests example_graph 0))"
    "\<exists>p. lin_nodes G3 ! 0 = Some p \<and>
       lin_edge_dsts example_sizes G3 p =
         Inr (map (\<lambda>d. the (lin_nodes G3 ! unat d)) (node_dests example_graph 0))"
    "\<exists>p. l2_nodes G4 ! 0 = Some p \<and>
       l2_edge_dsts example_sizes G4 p =
         Inr (map (\<lambda>d. the (l2_nodes G4 ! unat d)) (node_dests example_graph 0))"
    by blast+
  have "edge_dsts example_graph 0 = Inr [1, 2]" "csr_edge_dsts G1 0 = Inr [1, 2]"
    "inl_edge_dsts G2 0 = Inr [1, 2]"
    "\<exists>p. lin_nodes G3 ! 0 = Some p \<and>
       lin_edge_dsts example_sizes G3 p = Inr [the (lin_nodes G3 ! 1), the (lin_nodes G3 ! 2)]"
    "\<exists>p. l2_nodes G4 ! 0 = Some p \<and>
       l2_edge_dsts example_sizes G4 p = Inr [the (l2_nodes G4 ! 1), the (l2_nodes G4 ! 2)]"
    using z by (simp_all add: nd)
  then show ?thesis using ld v n32 e32 dl sN sE t fit s1 s2 r(1-4) by blast
qed

text \<open>
  The claim itself (for every valid file graph) does not hold: the graph with one node
  and \<open>2^32\<close> edges is valid and \<open>FileGraph\<close> gives node 0 the edges 0 up to
  \<open>2^32\<close>, but \<open>sizeEdges()\<close> returns \<open>unsigned int\<close>, here 0, so
  \<open>LC_CSR_Graph::structureFromFile\<close> allocates \<open>EdgeDst\<close> for 0 edges and
  \<open>std::copy\<close> writes \<open>2^32\<close> destinations behind it.
\<close>

theorem huge_graph_overflows_LC_CSR:
  "structureFromFile FileGraph_ctor [''huge.gr'' \<mapsto> huge_image] ''huge.gr'' = Inr huge_graph \<and>
   valid_FileGraph huge_graph \<and>
   numNodes huge_graph = 1 \<and> numEdges huge_graph = 2 ^ 32 \<and>
   edge_begin huge_graph 0 = Inr 0 \<and> edge_end huge_graph 0 = Inr (2 ^ 32) \<and>
   sizeEdges huge_graph = 0 \<and>
   LC_CSR_structureFromFile [''huge.gr'' \<mapsto> huge_image] ''huge.gr'' = Inl MemoryFault"
proof -
  have "edge_begin huge_graph 0 = Inr 0" "edge_end huge_graph 0 = Inr (2 ^ 32)"
    by (simp_all add: edge_begin_def edge_end_def huge_fields huge_load64)
  moreover have "sizeEdges huge_graph = 0" by (simp add: sizeEdges_def huge_fields)
  moreover have "LC_CSR_structureFromFile [''huge.gr'' \<mapsto> huge_image] ''huge.gr'' = Inl MemoryFault"
    by (simp add: LC_CSR_structureFromFile_def huge_loaded huge_CSR_faults)
  ultimately show ?thesis using huge_loaded huge_valid by (simp add: huge_fields)
qed


end
